theory Spec2Isabelle
  imports Main
begin

section \<open>Strings: the methods of Python's \<open>str\<close> that element.py calls\<close>

text \<open>
  Strings are lists of characters. Isabelle's \<open>char\<close> is one byte, so the model covers the
  code points below 256; \<open>is_space\<close> lists the characters of that range for which Python's
  \<open>str.isspace\<close> holds (tab to carriage return, the four separators 28 to 31, the blank,
  NEL and the no-break space).\<close>

definition is_space :: "char \<Rightarrow> bool" where
  "is_space c = (of_char c \<in> set [9, 10, 11, 12, 13, 28, 29, 30, 31, 32, 133, 160 :: nat])"

text \<open>\<open>text.split()\<close>: the maximal runs of characters that are not whitespace, in order.
  The first argument is the word read so far.\<close>

fun split_ws_from :: "string \<Rightarrow> string \<Rightarrow> string list" where
  "split_ws_from w [] = (if w = [] then [] else [w])"
| "split_ws_from w (c # cs) =
     (if is_space c then (if w = [] then split_ws_from [] cs else w # split_ws_from [] cs)
      else split_ws_from (w @ [c]) cs)"

definition split_ws :: "string \<Rightarrow> string list" where
  "split_ws text = split_ws_from [] text"

text \<open>\<open>text.split(sep)\<close> for a separator of one character: every occurrence splits, empty
  pieces are kept, and the result is never empty. The second argument is the piece read so
  far.\<close>

fun split_on_from :: "char \<Rightarrow> string \<Rightarrow> string \<Rightarrow> string list" where
  "split_on_from sep w [] = [w]"
| "split_on_from sep w (c # cs) =
     (if c = sep then w # split_on_from sep [] cs else split_on_from sep (w @ [c]) cs)"

definition split_on :: "char \<Rightarrow> string \<Rightarrow> string list" where
  "split_on sep text = split_on_from sep [] text"

text \<open>\<open>text.strip(chars)\<close> and \<open>text.strip()\<close>.\<close>

definition strip_chars :: "string \<Rightarrow> string \<Rightarrow> string" where
  "strip_chars chars text =
     rev (dropWhile (\<lambda>c. c \<in> set chars) (rev (dropWhile (\<lambda>c. c \<in> set chars) text)))"

definition strip :: "string \<Rightarrow> string" where
  "strip text = rev (dropWhile is_space (rev (dropWhile is_space text)))"

text \<open>\<open>text or ''\<close> for an optional string.\<close>

definition or_empty :: "string option \<Rightarrow> string" where
  "or_empty text = (case text of None \<Rightarrow> [] | Some t \<Rightarrow> t)"

text \<open>Truthiness of an optional string: \<open>None\<close> and \<open>''\<close> are false.\<close>

definition truthy :: "string option \<Rightarrow> bool" where
  "truthy text = (case text of None \<Rightarrow> False | Some t \<Rightarrow> t \<noteq> [])"


section \<open>Dictionaries\<close>

text \<open>
  A Python \<open>dict\<close> is an association list in insertion order: assigning to a key that is
  present keeps the key's position, assigning to a new key appends it.\<close>

type_synonym ('k, 'v) dict = "('k \<times> 'v) list"

fun dict_get :: "('k, 'v) dict \<Rightarrow> 'k \<Rightarrow> 'v option" where
  "dict_get [] k = None"
| "dict_get ((k', v) # d) k = (if k' = k then Some v else dict_get d k)"

definition dict_has :: "('k, 'v) dict \<Rightarrow> 'k \<Rightarrow> bool" where
  "dict_has d k = (dict_get d k \<noteq> None)"

fun dict_set :: "'k \<Rightarrow> 'v \<Rightarrow> ('k, 'v) dict \<Rightarrow> ('k, 'v) dict" where
  "dict_set k v [] = [(k, v)]"
| "dict_set k v ((k', v') # d) = (if k' = k then (k, v) # d else (k', v') # dict_set k v d)"

fun dict_del :: "'k \<Rightarrow> ('k, 'v) dict \<Rightarrow> ('k, 'v) dict" where
  "dict_del k [] = []"
| "dict_del k ((k', v') # d) = (if k' = k then dict_del k d else (k', v') # dict_del k d)"

definition dict_keys :: "('k, 'v) dict \<Rightarrow> 'k list" where
  "dict_keys d = map fst d"

text \<open>\<open>dict(pairs)\<close>, and \<open>d.update(other)\<close>: the items are assigned one after the other.\<close>

definition dict_update :: "('k, 'v) dict \<Rightarrow> ('k, 'v) dict \<Rightarrow> ('k, 'v) dict" where
  "dict_update d other = fold (\<lambda>(k, v) acc. dict_set k v acc) other d"

definition dict_of_pairs :: "('k \<times> 'v) list \<Rightarrow> ('k, 'v) dict" where
  "dict_of_pairs ps = dict_update [] ps"

text \<open>\<open>dict.fromkeys(keys)\<close>: every key maps to \<open>None\<close>, here the unit value.\<close>

definition dict_fromkeys :: "'k list \<Rightarrow> ('k, unit) dict" where
  "dict_fromkeys ks = dict_of_pairs (map (\<lambda>k. (k, ())) ks)"

text \<open>\<open>a == b\<close> on dictionaries: the same keys with equal values, whatever the order of
  insertion. Every key of either side is looked up in both.\<close>

definition dict_eq :: "('k, 'v) dict \<Rightarrow> ('k, 'v) dict \<Rightarrow> bool" where
  "dict_eq a b = list_all (\<lambda>k. dict_get a k = dict_get b k) (dict_keys a @ dict_keys b)"


section \<open>The data model\<close>

text \<open>The value of a prop is a string or the flag \<open>True\<close>.\<close>

datatype pvalue = PStr string | PTrue

text \<open>A handler is a callable; the model keeps a name for it.\<close>

record event_listener =
  el_element_id :: nat
  el_type :: string
  el_args :: "string list"
  el_handler :: nat

text \<open>
  An element object is addressed by its id: \<open>__init__\<close> stores it under \<open>client.elements[id]\<close>
  and never assigns the id again, so the client's \<open>elements\<close> dictionary is the store of the
  model and a reference to an element (\<open>self\<close>, a child of a slot) is an id. A slot is its
  name and the list of its children; \<open>slots\<close> is the dictionary from name to slot.\<close>

record element =
  eid :: nat
  tag :: string
  classes_f :: "string list"
  style_f :: "(string, string) dict"
  props_f :: "(string, pvalue) dict"
  event_listeners :: "event_listener list"
  text_f :: string
  slots :: "(string, nat list) dict"
  visible :: bool

text \<open>The result of \<open>to_dict\<close>.\<close>

record serialized =
  s_id :: nat
  s_tag :: string
  s_class :: "string list"
  s_style :: "(string, string) dict"
  s_props :: "(string, pvalue) dict"
  s_events :: "(string, string list) dict"
  s_text :: string
  s_slots :: "(string, nat list) dict"

text \<open>A message handed to \<open>globals.sio.emit\<close>: the event name, the \<open>elements\<close> entry of the
  payload and the room.\<close>

record message =
  m_event :: string
  m_elements :: "(nat, serialized) dict"
  m_room :: string

text \<open>
  The state a method of an element reads and writes: the elements of its client, the room of
  the client (\<open>str(client.id)\<close>), whether \<open>globals.loop\<close> is set, and the messages scheduled
  for emission so far, oldest first.\<close>

record state =
  elements :: "(nat, element) dict"
  client_room :: string
  loop :: bool
  emitted :: "message list"

text \<open>
  The exceptions of the model. \<open>KeyError\<close> is the lookup error of a string key, \<open>IdError\<close>
  that of an id missing from \<open>client.elements\<close>, \<open>ValueError\<close> what \<open>dict\<close> raises on an
  item that is not a pair, and \<open>LexError\<close> whatever the lexer of the props raises. \<open>Dangling\<close>
  stands for a method called on an id that holds no element: Python has no such call, and
  the constructor keeps the functions total.\<close>

datatype error = KeyError string | IdError nat | ValueError | LexError | Dangling nat

definition put_element :: "nat \<Rightarrow> element \<Rightarrow> state \<Rightarrow> state" where
  "put_element i e s = s\<lparr>elements := dict_set i e (elements s)\<rparr>"


section \<open>Serialization\<close>

text \<open>The body of the loop of \<open>to_dict\<close> over the listeners, the loop, and \<open>to_dict\<close>; a child is its id, so
  \<open>child.id\<close> is the child.\<close>

definition merge_step :: "event_listener \<Rightarrow> (string, string list) dict \<Rightarrow> (string, string list) dict" where
  "merge_step listener events =
     dict_set (el_type listener)
       ((case dict_get events (el_type listener) of None \<Rightarrow> [] | Some args \<Rightarrow> args)
          @ el_args listener)
       events"

definition merge_events :: "event_listener list \<Rightarrow> (string, string list) dict" where
  "merge_events listeners = fold merge_step listeners []"

definition to_dict :: "element \<Rightarrow> serialized" where
  "to_dict e =
     \<lparr> s_id = eid e, s_tag = tag e, s_class = classes_f e, s_style = style_f e,
       s_props = props_f e, s_events = merge_events (event_listeners e), s_text = text_f e,
       s_slots = dict_of_pairs (map (\<lambda>(name, children). (name, map (\<lambda>child. child) children)) (slots e)) \<rparr>"


section \<open>Update propagation\<close>

text \<open>
  A loop that stops at the first exception. The results are \<open>None\<close> when the recursion below
  ran out of fuel, \<open>Some (Inl err)\<close> for an exception and \<open>Some (Inr acc)\<close> for the value after
  the last item.\<close>

fun for_each :: "('a \<Rightarrow> 'b \<Rightarrow> (error + 'b) option) \<Rightarrow> 'a list \<Rightarrow> 'b \<Rightarrow> (error + 'b) option" where
  "for_each body [] acc = Some (Inr acc)"
| "for_each body (x # xs) acc =
     (case body x acc of
        None \<Rightarrow> None
      | Some (Inl err) \<Rightarrow> Some (Inl err)
      | Some (Inr acc') \<Rightarrow> for_each body xs acc')"

text \<open>
  \<open>collect_ids\<close> of \<open>update\<close>, with the list \<open>ids\<close> it appends to passed along. The recursion
  follows the children and need not end (a slot may hold an ancestor), so it counts fuel:
  \<open>None\<close> means the fuel did not suffice.\<close>

fun collect_ids :: "nat \<Rightarrow> (nat, element) dict \<Rightarrow> nat \<Rightarrow> nat list \<Rightarrow> (error + nat list) option" where
  "collect_ids 0 els i ids = None"
| "collect_ids (Suc fuel) els i ids =
     (case dict_get els i of
        None \<Rightarrow> Some (Inl (IdError i))
      | Some e \<Rightarrow>
          (case for_each
                  (\<lambda>slot ids1. for_each (\<lambda>child ids2. collect_ids fuel els child ids2) (snd slot) ids1)
                  (slots e) ids of
             None \<Rightarrow> None
           | Some (Inl err) \<Rightarrow> Some (Inl err)
           | Some (Inr ids') \<Rightarrow> Some (Inr (ids' @ [i]))))"

text \<open>The dictionary comprehension \<open>{id: self.client.elements[id].to_dict() for id in ids}\<close>.\<close>

fun serialize_all :: "(nat, element) dict \<Rightarrow> nat list \<Rightarrow> (nat, serialized) dict \<Rightarrow> error + (nat, serialized) dict" where
  "serialize_all els [] batch = Inr batch"
| "serialize_all els (i # ids) batch =
     (case dict_get els i of
        None \<Rightarrow> Inl (IdError i)
      | Some e \<Rightarrow> serialize_all els ids (dict_set i (to_dict e) batch))"

text \<open>\<open>update\<close>: the result is the exception, if any, and the state after the call.\<close>

definition update :: "nat \<Rightarrow> nat \<Rightarrow> state \<Rightarrow> (error option \<times> state) option" where
  "update fuel self s =
     (if \<not> loop s then Some (None, s)
      else
        (case collect_ids fuel (elements s) self [] of
           None \<Rightarrow> None
         | Some (Inl err) \<Rightarrow> Some (Some err, s)
         | Some (Inr ids) \<Rightarrow>
             (case serialize_all (elements s) ids [] of
                Inl err \<Rightarrow> Some (Some err, s)
              | Inr batch \<Rightarrow>
                  Some (None, s\<lparr>emitted := emitted s @
                    [\<lparr> m_event = ''update'', m_elements = batch, m_room = client_room s \<rparr>]\<rparr>))))"


text \<open>A method that ends with \<open>self.update()\<close> and \<open>return v\<close>.\<close>

definition then_return :: "(error option \<times> state) option \<Rightarrow> 'a \<Rightarrow> ((error + 'a) \<times> state) option" where
  "then_return r v =
     (case r of
        None \<Rightarrow> None
      | Some (None, s') \<Rightarrow> Some (Inr v, s')
      | Some (Some err, s') \<Rightarrow> Some (Inl err, s'))"


section \<open>Visibility\<close>

text \<open>The two conditionals of \<open>on_visibility_change\<close>, one after the other; \<open>list.remove\<close>
  deletes the first occurrence.\<close>

definition show_step :: "nat \<Rightarrow> bool \<Rightarrow> nat \<Rightarrow> state \<Rightarrow> (error option \<times> state) option" where
  "show_step fuel vis self s =
     (case dict_get (elements s) self of
        None \<Rightarrow> Some (Some (Dangling self), s)
      | Some e \<Rightarrow>
          if vis \<and> ''hidden'' \<in> set (classes_f e)
          then update fuel self (put_element self (e\<lparr>classes_f := remove1 ''hidden'' (classes_f e)\<rparr>) s)
          else Some (None, s))"

definition hide_step :: "nat \<Rightarrow> bool \<Rightarrow> nat \<Rightarrow> state \<Rightarrow> (error option \<times> state) option" where
  "hide_step fuel vis self s =
     (case dict_get (elements s) self of
        None \<Rightarrow> Some (Some (Dangling self), s)
      | Some e \<Rightarrow>
          if \<not> vis \<and> ''hidden'' \<notin> set (classes_f e)
          then update fuel self (put_element self (e\<lparr>classes_f := classes_f e @ [''hidden'']\<rparr>) s)
          else Some (None, s))"

definition on_visibility_change :: "nat \<Rightarrow> bool \<Rightarrow> nat \<Rightarrow> state \<Rightarrow> (error option \<times> state) option" where
  "on_visibility_change fuel vis self s =
     (case show_step fuel vis self s of
        None \<Rightarrow> None
      | Some (Some err, s1) \<Rightarrow> Some (Some err, s1)
      | Some (None, s1) \<Rightarrow> hide_step fuel vis self s1)"


section \<open>Classes\<close>

definition new_class_list :: "string list \<Rightarrow> string option \<Rightarrow> string option \<Rightarrow> string option \<Rightarrow> string list" where
  "new_class_list current add remove replace =
     (let class_list = (if replace = None then current else []);
          class_list = filter (\<lambda>c. c \<notin> set (split_ws (or_empty remove))) class_list;
          class_list = class_list @ split_ws (or_empty add);
          class_list = class_list @ split_ws (or_empty replace)
      in dict_keys (dict_fromkeys class_list))"

definition classes :: "nat \<Rightarrow> string option \<Rightarrow> string option \<Rightarrow> string option \<Rightarrow> nat \<Rightarrow> state \<Rightarrow> ((error + nat) \<times> state) option" where
  "classes fuel add remove replace self s =
     (case dict_get (elements s) self of
        None \<Rightarrow> Some (Inl (Dangling self), s)
      | Some e \<Rightarrow>
          (let new_classes = new_class_list (classes_f e) add remove replace
           in if classes_f e \<noteq> new_classes
              then then_return (update fuel self (put_element self (e\<lparr>classes_f := new_classes\<rparr>) s)) self
              else Some (Inr self, s)))"


section \<open>Style\<close>

text \<open>\<open>dict\<close> applied to a sequence of sequences: each must have two members.\<close>

fun dict_of_seqs :: "'a list list \<Rightarrow> ('a, 'a) dict \<Rightarrow> error + ('a, 'a) dict" where
  "dict_of_seqs [] d = Inr d"
| "dict_of_seqs (ws # rest) d =
     (case ws of [k, v] \<Rightarrow> dict_of_seqs rest (dict_set k v d) | _ \<Rightarrow> Inl ValueError)"

definition parse_style :: "string option \<Rightarrow> error + (string, string) dict" where
  "parse_style text =
     (if truthy text
      then dict_of_seqs
             (map (\<lambda>part. map strip (split_on CHR '':'' part))
                  (split_on CHR '';'' (strip_chars ''; '' (or_empty text))))
             []
      else Inr [])"

text \<open>
  \<open>style_dict\<close> names either the dictionary that \<open>self._style\<close> holds or the new dictionary
  made by \<open>{}\<close>. The two objects are the cells of a small heap, and what is done through
  \<open>style_dict\<close> is done to the cell it names.\<close>

datatype dref = SelfStyle | NewDict

record style_heap =
  self_style :: "(string, string) dict"
  new_dict :: "(string, string) dict"

definition deref :: "dref \<Rightarrow> style_heap \<Rightarrow> (string, string) dict" where
  "deref r h = (case r of SelfStyle \<Rightarrow> self_style h | NewDict \<Rightarrow> new_dict h)"

definition assign :: "dref \<Rightarrow> (string, string) dict \<Rightarrow> style_heap \<Rightarrow> style_heap" where
  "assign r d h = (case r of SelfStyle \<Rightarrow> h\<lparr>self_style := d\<rparr> | NewDict \<Rightarrow> h\<lparr>new_dict := d\<rparr>)"

text \<open>The loop \<open>for key in parse_style(remove): del style_dict[key]\<close>; the heap is returned
  also when a deletion raises.\<close>

fun del_keys :: "string list \<Rightarrow> dref \<Rightarrow> style_heap \<Rightarrow> error option \<times> style_heap" where
  "del_keys [] r h = (None, h)"
| "del_keys (key # keys) r h =
     (if dict_has (deref r h) key then del_keys keys r (assign r (dict_del key (deref r h)) h)
      else (Some (KeyError key), h))"

text \<open>\<open>style\<close>. Whenever the call is left, by \<open>return\<close> or by an exception, the element holds
  what the heap has in the cell of \<open>self._style\<close> at that moment.\<close>

definition style :: "nat \<Rightarrow> string option \<Rightarrow> string option \<Rightarrow> string option \<Rightarrow> nat \<Rightarrow> state \<Rightarrow> ((error + nat) \<times> state) option" where
  "style fuel add remove replace self s =
     (case dict_get (elements s) self of
        None \<Rightarrow> Some (Inl (Dangling self), s)
      | Some e \<Rightarrow>
          (let h0 = \<lparr> self_style = style_f e, new_dict = [] \<rparr>;
               style_dict = (if replace = None then SelfStyle else NewDict);
               leave = (\<lambda>h. put_element self (e\<lparr>style_f := self_style h\<rparr>) s)
           in case parse_style remove of
                Inl err \<Rightarrow> Some (Inl err, leave h0)
              | Inr removed \<Rightarrow>
                  (case del_keys (dict_keys removed) style_dict h0 of
                     (Some err, h1) \<Rightarrow> Some (Inl err, leave h1)
                   | (None, h1) \<Rightarrow>
                       (case parse_style add of
                          Inl err \<Rightarrow> Some (Inl err, leave h1)
                        | Inr added \<Rightarrow>
                            (let h2 = assign style_dict (dict_update (deref style_dict h1) added) h1
                             in case parse_style replace of
                                  Inl err \<Rightarrow> Some (Inl err, leave h2)
                                | Inr replaced \<Rightarrow>
                                    (let h3 = assign style_dict (dict_update (deref style_dict h2) replaced) h2
                                     in if \<not> dict_eq (self_style h3) (deref style_dict h3)
                                        then then_return
                                               (update fuel self
                                                  (put_element self (e\<lparr>style_f := deref style_dict h3\<rparr>) s))
                                               self
                                        else Some (Inr self, leave h3)))))))"


section \<open>Props\<close>

text \<open>
  \<open>parse_props\<close> reads its words from \<open>shlex.shlex\<close> of the standard library, set up with the
  blank as the only whitespace and with \<open>=-.%\<close> among the word characters. The lexer is a
  parameter here: the words of the text, or the exception it raises.\<close>

definition prop_of_word :: "string \<Rightarrow> string \<times> pvalue" where
  "prop_of_word word =
     (if CHR ''='' \<in> set word
      then (takeWhile (\<lambda>c. c \<noteq> CHR ''='') word, PStr (tl (dropWhile (\<lambda>c. c \<noteq> CHR ''='') word)))
      else (word, PTrue))"

definition parse_props :: "(string \<Rightarrow> error + string list) \<Rightarrow> string option \<Rightarrow> error + (string, pvalue) dict" where
  "parse_props lexer text =
     (if \<not> truthy text then Inr []
      else (case lexer (or_empty text) of
              Inl err \<Rightarrow> Inl err
            | Inr words \<Rightarrow> Inr (dict_of_pairs (map prop_of_word words))))"

text \<open>The two loops of \<open>props\<close>, on the pair of \<open>needs_update\<close> and \<open>self._props\<close>.\<close>

definition remove_props :: "string list \<Rightarrow> bool \<times> (string, pvalue) dict \<Rightarrow> bool \<times> (string, pvalue) dict" where
  "remove_props keys =
     fold (\<lambda>key (needs_update, ps).
             if dict_has ps key then (True, dict_del key ps) else (needs_update, ps)) keys"

definition add_props :: "(string, pvalue) dict \<Rightarrow> bool \<times> (string, pvalue) dict \<Rightarrow> bool \<times> (string, pvalue) dict" where
  "add_props items =
     fold (\<lambda>(key, value) (needs_update, ps).
             if dict_get ps key \<noteq> Some value then (True, dict_set key value ps)
             else (needs_update, ps)) items"

definition props :: "nat \<Rightarrow> (string \<Rightarrow> error + string list) \<Rightarrow> string option \<Rightarrow> string option \<Rightarrow> nat \<Rightarrow> state \<Rightarrow> ((error + nat) \<times> state) option" where
  "props fuel lexer add remove self s =
     (case dict_get (elements s) self of
        None \<Rightarrow> Some (Inl (Dangling self), s)
      | Some e \<Rightarrow>
          (case parse_props lexer remove of
             Inl err \<Rightarrow> Some (Inl err, s)
           | Inr removed \<Rightarrow>
               (let (needs1, ps1) = remove_props (dict_keys removed) (False, props_f e)
                in case parse_props lexer add of
                     Inl err \<Rightarrow> Some (Inl err, put_element self (e\<lparr>props_f := ps1\<rparr>) s)
                   | Inr added \<Rightarrow>
                       (let (needs2, ps2) = add_props added (needs1, ps1);
                            s' = put_element self (e\<lparr>props_f := ps2\<rparr>) s
                        in if needs2 then then_return (update fuel self s') self
                           else Some (Inr self, s')))))"


section \<open>Event registration\<close>

definition on :: "string \<Rightarrow> nat option \<Rightarrow> string list \<Rightarrow> nat \<Rightarrow> state \<Rightarrow> (error + nat) \<times> state" where
  "on type handler args self s =
     (case dict_get (elements s) self of
        None \<Rightarrow> (Inl (Dangling self), s)
      | Some e \<Rightarrow>
          (case handler of
             None \<Rightarrow> (Inr self, s)
           | Some h \<Rightarrow>
               (Inr self,
                put_element self
                  (e\<lparr>event_listeners := event_listeners e @
                       [\<lparr> el_element_id = eid e, el_type = type, el_args = args, el_handler = h \<rparr>]\<rparr>) s)))"


section \<open>The class list as the specification words it\<close>

text \<open>
  Deduplication that keeps the first occurrence of every member, and the list the
  specification gives for \<open>classes\<close>: the current list (the empty list if \<open>replace\<close> is
  given) without the tokens of \<open>remove\<close>, then the tokens of \<open>add\<close>, then those of
  \<open>replace\<close>, deduplicated.\<close>

fun dedup_first :: "'a list \<Rightarrow> 'a list" where
  "dedup_first [] = []"
| "dedup_first (x # xs) = x # dedup_first (filter (\<lambda>y. y \<noteq> x) xs)"

definition spec_class_list :: "string list \<Rightarrow> string option \<Rightarrow> string option \<Rightarrow> string option \<Rightarrow> string list" where
  "spec_class_list current add remove replace =
     dedup_first
       (filter (\<lambda>c. c \<notin> set (split_ws (or_empty remove))) (if replace = None then current else [])
        @ split_ws (or_empty add) @ split_ws (or_empty replace))"


section \<open>The subtree an element owns\<close>

text \<open>
  What the claims about \<open>update\<close> speak of, stated on the store: the children of an element
  (those of all its slots, in order), the relation from an element to each child, and the
  position of one id before another in a list.\<close>

definition children_of :: "(nat, element) dict \<Rightarrow> nat \<Rightarrow> nat list" where
  "children_of els i = (case dict_get els i of None \<Rightarrow> [] | Some e \<Rightarrow> concat (map snd (slots e)))"

definition child_rel :: "(nat, element) dict \<Rightarrow> (nat \<times> nat) set" where
  "child_rel els = {(i, c). c \<in> set (children_of els i)}"

definition precedes :: "'a \<Rightarrow> 'a \<Rightarrow> 'a list \<Rightarrow> bool" where
  "precedes x y xs = (y \<in> set xs \<and> x \<in> set (takeWhile (\<lambda>z. z \<noteq> y) xs))"

text \<open>
  A finite tree of ids, and what it means that the store has this tree below an element:
  the element exists, the names of its slots are distinct (\<open>slots\<close> is a dictionary), its
  children are the roots of the subtrees, and so on below. \<open>postorder\<close> lists the ids of a
  tree with every subtree before its root.\<close>

datatype etree = Node nat "etree list"

fun root :: "etree \<Rightarrow> nat" where
  "root (Node i ts) = i"

fun postorder :: "etree \<Rightarrow> nat list" where
  "postorder (Node i ts) = concat (map postorder ts) @ [i]"

definition proper_slots :: "(nat, element) dict \<Rightarrow> nat \<Rightarrow> bool" where
  "proper_slots els i =
     (case dict_get els i of None \<Rightarrow> False | Some e \<Rightarrow> distinct (dict_keys (slots e)))"

fun shape :: "(nat, element) dict \<Rightarrow> etree \<Rightarrow> bool" where
  "shape els (Node i ts) =
     (proper_slots els i \<and> children_of els i = map root ts \<and> list_all (shape els) ts)"

text \<open>The serialization of the element stored under an id, if there is one.\<close>

definition serialized_at :: "(nat, element) dict \<Rightarrow> nat \<Rightarrow> serialized option" where
  "serialized_at els i = map_option to_dict (dict_get els i)"


section \<open>Example states\<close>

text \<open>An element as \<open>__init__\<close> leaves it: nothing but the empty \<open>default\<close> slot.\<close>

definition blank :: "nat \<Rightarrow> string \<Rightarrow> element" where
  "blank i t =
     \<lparr> eid = i, tag = t, classes_f = [], style_f = [], props_f = [], event_listeners = [],
       text_f = [], slots = [(''default'', [])], visible = True \<rparr>"

text \<open>A card (0) holding a row (1) and a label (2); the row holds a button (3).\<close>

definition demo :: state where
  "demo =
     \<lparr> elements =
         [(0, (blank 0 ''q-card'')\<lparr>slots := [(''default'', [1, 2])]\<rparr>),
          (1, (blank 1 ''div'')\<lparr>slots := [(''default'', [3])]\<rparr>),
          (2, blank 2 ''q-label''),
          (3, blank 3 ''q-btn'')],
       client_room = ''0'', loop = True, emitted = [] \<rparr>"

definition demo_tree :: etree where
  "demo_tree = Node 0 [Node 1 [Node 3 []], Node 2 []]"

text \<open>The same with the style \<open>color: red\<close> on the button.\<close>

definition demo_styled :: state where
  "demo_styled =
     demo\<lparr>elements :=
            dict_set 3 ((blank 3 ''q-btn'')\<lparr>style_f := [(''color'', ''red'')]\<rparr>) (elements demo)\<rparr>"

text \<open>A lexer for the examples: the words of a text that has no quotes, no escapes and
  single blanks between its words, which is what \<open>shlex\<close> returns for such a text.\<close>

definition plain_lexer :: "string \<Rightarrow> error + string list" where
  "plain_lexer text = Inr (split_on CHR '' '' text)"

definition demo_offline :: state where
  "demo_offline = demo\<lparr>loop := False\<rparr>"


section \<open>Dictionaries: basic facts\<close>

lemma dict_get_map_of: "dict_get d = map_of d"
proof
  fix k show "dict_get d k = map_of d k" by (induction d) auto
qed

lemma dict_get_set: "dict_get (dict_set k v d) k' = (if k' = k then Some v else dict_get d k')"
  by (induction d) auto

lemma dict_get_del: "dict_get (dict_del k d) k' = (if k' = k then None else dict_get d k')"
  by (induction d) auto

lemma dict_set_same: "dict_get d k = Some v \<Longrightarrow> dict_set k v d = d"
  by (induction d) (auto split: if_splits)

lemma dict_get_None_iff: "dict_get d k = None \<longleftrightarrow> k \<notin> set (dict_keys d)"
  by (simp add: dict_get_map_of dict_keys_def map_of_eq_None_iff)

lemma dict_keys_set:
  "dict_keys (dict_set k v d) = (if k \<in> set (dict_keys d) then dict_keys d else dict_keys d @ [k])"
proof (induction d)
  case Nil
  show ?case by (simp add: dict_keys_def)
next
  case (Cons p d)
  obtain k' v' where p: "p = (k', v')" by (cases p)
  show ?case using Cons.IH by (auto simp add: p dict_keys_def)
qed

lemma distinct_dict_set: "distinct (dict_keys d) \<Longrightarrow> distinct (dict_keys (dict_set k v d))"
  by (simp add: dict_keys_set)

lemma dict_keys_del: "dict_keys (dict_del k d) = filter (\<lambda>x. x \<noteq> k) (dict_keys d)"
  unfolding dict_keys_def by (induction d) auto


lemma dict_set_fresh: "k \<notin> set (dict_keys d) \<Longrightarrow> dict_set k v d = d @ [(k, v)]"
  unfolding dict_keys_def by (induction d) auto

lemma dict_update_fresh:
  "distinct (dict_keys ps) \<Longrightarrow> set (dict_keys ps) \<inter> set (dict_keys acc) = {}
   \<Longrightarrow> dict_update acc ps = acc @ ps"
proof (induction ps arbitrary: acc)
  case Nil
  show ?case by (simp add: dict_update_def)
next
  case (Cons p ps)
  obtain k v where p: "p = (k, v)" by (cases p)
  have fresh: "k \<notin> set (dict_keys acc)" using Cons.prems(2) by (auto simp add: p dict_keys_def)
  have "dict_update acc (p # ps) = dict_update (dict_set k v acc) ps"
    by (simp add: dict_update_def p)
  also have "\<dots> = dict_update (acc @ [(k, v)]) ps"
    by (simp add: dict_set_fresh [OF fresh])
  also have "\<dots> = (acc @ [(k, v)]) @ ps"
    using Cons.prems by (intro Cons.IH) (auto simp add: p dict_keys_def)
  finally show ?case by (simp add: p)
qed

lemma dict_of_pairs_distinct: "distinct (dict_keys ps) \<Longrightarrow> dict_of_pairs ps = ps"
  using dict_update_fresh [of ps "[]"] by (simp add: dict_of_pairs_def dict_keys_def)


section \<open>Update without an event loop\<close>

text \<open>
  Claim C10. When \<open>globals.loop\<close> is not set, \<open>update\<close> returns (whatever the fuel, whatever
  the element and the shape of the store), raises nothing, and the state after the call is
  the state before it: no message was scheduled and no element changed.\<close>

theorem update_without_loop_is_noop:
  "\<not> loop s \<Longrightarrow> update fuel self s = Some (None, s)"
  by (simp add: update_def)

theorem update_without_loop_is_noop_witness:
  "\<not> loop demo_offline \<and> update 0 0 demo_offline = Some (None, demo_offline)"
proof -
  have off: "\<not> loop demo_offline" by (simp add: demo_offline_def)
  show ?thesis using off update_without_loop_is_noop [OF off, of 0 0] by simp
qed


section \<open>Events in the serialization\<close>

lemma merge_fold_get:
  "dict_get (fold merge_step ls acc) t =
     (if t \<in> el_type ` set ls
      then Some ((case dict_get acc t of None \<Rightarrow> [] | Some a \<Rightarrow> a)
                 @ concat (map el_args (filter (\<lambda>l. el_type l = t) ls)))
      else dict_get acc t)"
proof (induction ls arbitrary: acc)
  case Nil
  show ?case by simp
next
  case (Cons l ls)
  have g: "dict_get (merge_step l acc) t =
      (if t = el_type l then Some ((case dict_get acc t of None \<Rightarrow> [] | Some a \<Rightarrow> a) @ el_args l)
       else dict_get acc t)"
    by (simp add: merge_step_def dict_get_set)
  have "dict_get (fold merge_step (l # ls) acc) t = dict_get (fold merge_step ls (merge_step l acc)) t"
    by simp
  also have "\<dots> = (if t \<in> el_type ` set ls
      then Some ((case dict_get (merge_step l acc) t of None \<Rightarrow> [] | Some a \<Rightarrow> a)
                 @ concat (map el_args (filter (\<lambda>l. el_type l = t) ls)))
      else dict_get (merge_step l acc) t)"
    by (rule Cons.IH)
  finally have F: "dict_get (fold merge_step (l # ls) acc) t = (if t \<in> el_type ` set ls
      then Some ((case dict_get (merge_step l acc) t of None \<Rightarrow> [] | Some a \<Rightarrow> a)
                 @ concat (map el_args (filter (\<lambda>l. el_type l = t) ls)))
      else dict_get (merge_step l acc) t)" .
  show ?case unfolding F g by (cases "t = el_type l") (auto simp add: image_iff)
qed

lemma merge_fold_distinct:
  "distinct (dict_keys acc) \<Longrightarrow> distinct (dict_keys (fold merge_step ls acc))"
  by (induction ls arbitrary: acc) (simp_all add: merge_step_def distinct_dict_set)

text \<open>
  Claim C9. In the \<open>events\<close> field of \<open>to_dict\<close>, a type \<open>t\<close> has an entry exactly when some
  listener of the element has that type; the entry is the concatenation of the argument
  lists of the listeners of type \<open>t\<close>, in the order of registration; and no type has two
  entries (the keys of the field are distinct).\<close>

theorem to_dict_events_merged:
  "dict_get (s_events (to_dict e)) t =
     (if t \<in> el_type ` set (event_listeners e)
      then Some (concat (map el_args (filter (\<lambda>l. el_type l = t) (event_listeners e))))
      else None)
   \<and> distinct (dict_keys (s_events (to_dict e)))"
proof -
  have "distinct (dict_keys (fold merge_step (event_listeners e) []))"
    by (rule merge_fold_distinct) (simp add: dict_keys_def)
  then show ?thesis
    by (simp add: to_dict_def merge_events_def merge_fold_get)
qed

section \<open>Update on a tree\<close>

lemma to_dict_slots: "distinct (dict_keys (slots e)) \<Longrightarrow> s_slots (to_dict e) = slots e"
proof -
  have "map (\<lambda>(name, children). (name, map (\<lambda>child. child) children)) (slots e) = slots e"
    by (induction "slots e") auto
  then show "distinct (dict_keys (slots e)) \<Longrightarrow> s_slots (to_dict e) = slots e"
    by (simp add: to_dict_def dict_of_pairs_distinct)
qed

lemma for_each_append:
  "for_each body (xs @ ys) acc =
     (case for_each body xs acc of
        None \<Rightarrow> None
      | Some (Inl err) \<Rightarrow> Some (Inl err)
      | Some (Inr acc') \<Rightarrow> for_each body ys acc')"
  by (induction xs arbitrary: acc) (auto split: option.splits sum.splits)

lemma for_each_slots:
  "for_each (\<lambda>slot acc1. for_each body (snd slot) acc1) sl acc = for_each body (concat (map snd sl)) acc"
  by (induction sl arbitrary: acc) (auto simp add: for_each_append split: option.splits sum.splits)

lemma postorder_child_le:
  "t' \<in> set ts \<Longrightarrow> length (postorder t') \<le> length (concat (map postorder ts))"
  by (induction ts) auto

lemma for_each_children:
  "(\<And>t' ids. t' \<in> set ts \<Longrightarrow> f (root t') ids = Some (Inr (ids @ postorder t')))
   \<Longrightarrow> for_each f (map root ts) ids = Some (Inr (ids @ concat (map postorder ts)))"
  by (induction ts arbitrary: ids) auto

lemma collect_ids_tree:
  "shape els t \<Longrightarrow> length (postorder t) \<le> fuel
   \<Longrightarrow> collect_ids fuel els (root t) ids = Some (Inr (ids @ postorder t))"
proof (induction t arbitrary: fuel ids)
  case (Node i ts)
  from Node.prems(2) obtain f where fuel: "fuel = Suc f" by (cases fuel) auto
  from Node.prems(1) obtain e where e: "dict_get els i = Some e"
    and ch: "concat (map snd (slots e)) = map root ts"
    and sub: "list_all (shape els) ts"
    by (auto simp add: proper_slots_def children_of_def split: option.splits)
  have kids: "for_each (\<lambda>child ids2. collect_ids f els child ids2) (map root ts) ids
                = Some (Inr (ids @ concat (map postorder ts)))"
  proof (rule for_each_children)
    fix t' ids' assume t': "t' \<in> set ts"
    have "shape els t'" using sub t' by (simp add: list_all_iff)
    moreover have "length (postorder t') \<le> f"
      using postorder_child_le [OF t'] Node.prems(2) fuel by simp
    ultimately show "collect_ids f els (root t') ids' = Some (Inr (ids' @ postorder t'))"
      using Node.IH t' by blast
  qed
  show ?case
    by (simp add: fuel e for_each_slots ch kids)
qed

lemma serialize_all_get:
  "(\<And>i. i \<in> set ids \<Longrightarrow> dict_has els i)
   \<Longrightarrow> \<exists>b'. serialize_all els ids b = Inr b'
          \<and> (\<forall>i. dict_get b' i = (if i \<in> set ids then serialized_at els i else dict_get b i))
          \<and> (distinct ids \<and> set ids \<inter> set (dict_keys b) = {} \<longrightarrow> dict_keys b' = dict_keys b @ ids)"
proof (induction ids arbitrary: b)
  case Nil
  show ?case by simp
next
  case (Cons i ids)
  from Cons.prems [of i] obtain e where e: "dict_get els i = Some e"
    by (auto simp add: dict_has_def)
  have "\<And>j. j \<in> set ids \<Longrightarrow> dict_has els j" using Cons.prems by simp
  from Cons.IH [OF this, of "dict_set i (to_dict e) b"]
  obtain b' where b': "serialize_all els ids (dict_set i (to_dict e) b) = Inr b'"
    and get: "\<forall>j. dict_get b' j = (if j \<in> set ids then serialized_at els j else dict_get (dict_set i (to_dict e) b) j)"
    and keys: "distinct ids \<and> set ids \<inter> set (dict_keys (dict_set i (to_dict e) b)) = {}
                 \<longrightarrow> dict_keys b' = dict_keys (dict_set i (to_dict e) b) @ ids"
    by blast
  have 1: "serialize_all els (i # ids) b = Inr b'" by (simp add: e b')
  have 2: "\<forall>j. dict_get b' j = (if j \<in> set (i # ids) then serialized_at els j else dict_get b j)"
    using get by (auto simp add: dict_get_set serialized_at_def e)
  have 3: "distinct (i # ids) \<and> set (i # ids) \<inter> set (dict_keys b) = {} \<longrightarrow> dict_keys b' = dict_keys b @ i # ids"
    using keys by (auto simp add: dict_keys_set)
  show ?case using 1 2 3 by blast
qed

lemma root_in_postorder: "root t \<in> set (postorder t)"
  by (cases t) simp

lemma shape_proper: "shape els t \<Longrightarrow> j \<in> set (postorder t) \<Longrightarrow> proper_slots els j"
  by (induction t) (auto simp add: list_all_iff)

lemma proper_slots_has: "proper_slots els j \<Longrightarrow> dict_has els j"
  by (simp add: proper_slots_def dict_has_def split: option.splits)

lemma shape_closed:
  "shape els t \<Longrightarrow> j \<in> set (postorder t) \<Longrightarrow> c \<in> set (children_of els j) \<Longrightarrow> c \<in> set (postorder t)"
proof (induction t)
  case (Node i ts)
  have sub: "\<And>t'. t' \<in> set ts \<Longrightarrow> shape els t'" using Node.prems(1) by (simp add: list_all_iff)
  show ?case
  proof (cases "j = i")
    case True
    then have "c \<in> set (map root ts)" using Node.prems by simp
    then obtain t' where "t' \<in> set ts" "c = root t'" by auto
    then show ?thesis using root_in_postorder [of t'] by auto
  next
    case False
    then obtain t' where t': "t' \<in> set ts" "j \<in> set (postorder t')" using Node.prems(2) by auto
    then have "c \<in> set (postorder t')" using Node.IH sub Node.prems(3) by blast
    then show ?thesis using t' by auto
  qed
qed

lemma reach_in_tree:
  assumes "shape els t" and "(root t, j) \<in> (child_rel els)\<^sup>*"
  shows "j \<in> set (postorder t)"
  using assms(2)
proof (induction rule: rtrancl_induct)
  case base
  show ?case by (rule root_in_postorder)
next
  case (step y z)
  then show ?case using shape_closed [OF assms(1), of y z] by (simp add: child_rel_def)
qed

lemma tree_in_reach:
  "shape els t \<Longrightarrow> j \<in> set (postorder t) \<Longrightarrow> (root t, j) \<in> (child_rel els)\<^sup>*"
proof (induction t)
  case (Node i ts)
  show ?case
  proof (cases "j = i")
    case True
    then show ?thesis by simp
  next
    case False
    then obtain t' where t': "t' \<in> set ts" "j \<in> set (postorder t')" using Node.prems(2) by auto
    have "shape els t'" using Node.prems(1) t' by (simp add: list_all_iff)
    then have "(root t', j) \<in> (child_rel els)\<^sup>*" using Node.IH t' by blast
    moreover have "(i, root t') \<in> child_rel els"
      using Node.prems(1) t'(1) by (simp add: child_rel_def)
    ultimately show ?thesis by (simp add: converse_rtrancl_into_rtrancl)
  qed
qed

lemma subtree_is_reachable:
  "shape els t \<Longrightarrow> set (postorder t) = {j. (root t, j) \<in> (child_rel els)\<^sup>*}"
  using reach_in_tree tree_in_reach by blast

lemma descendants_of_root:
  assumes "shape els (Node i ts)"
  shows "{j. (i, j) \<in> (child_rel els)\<^sup>+} = set (concat (map postorder ts))"
proof (intro set_eqI iffI)
  fix j assume "j \<in> {j. (i, j) \<in> (child_rel els)\<^sup>+}"
  then obtain c where c: "(i, c) \<in> child_rel els" "(c, j) \<in> (child_rel els)\<^sup>*"
    by (auto dest: tranclD)
  then have "c \<in> set (map root ts)" using assms by (simp add: child_rel_def)
  then obtain t' where t': "t' \<in> set ts" "c = root t'" by auto
  have "shape els t'" using assms t' by (simp add: list_all_iff)
  then have "j \<in> set (postorder t')" using c(2) t'(2) reach_in_tree by blast
  then show "j \<in> set (concat (map postorder ts))" using t' by auto
next
  fix j assume "j \<in> set (concat (map postorder ts))"
  then obtain t' where t': "t' \<in> set ts" "j \<in> set (postorder t')" by auto
  have "shape els t'" using assms t' by (simp add: list_all_iff)
  then have "(root t', j) \<in> (child_rel els)\<^sup>*" using t' tree_in_reach by blast
  moreover have "(i, root t') \<in> child_rel els" using assms t'(1) by (simp add: child_rel_def)
  ultimately show "j \<in> {j. (i, j) \<in> (child_rel els)\<^sup>+}" by (simp add: rtrancl_into_trancl2)
qed

lemma takeWhile_until_last: "i \<notin> set xs \<Longrightarrow> takeWhile (\<lambda>z. z \<noteq> i) (xs @ [i]) = xs"
  by (induction xs) auto

lemma precedes_embed:
  assumes "precedes x y m" "y \<notin> set a"
  shows "precedes x y (a @ m @ b)"
proof -
  have y: "y \<in> set m" and x: "x \<in> set (takeWhile (\<lambda>z. z \<noteq> y) m)"
    using assms(1) by (simp_all add: precedes_def)
  have "takeWhile (\<lambda>z. z \<noteq> y) (m @ b) = takeWhile (\<lambda>z. z \<noteq> y) m"
    using y by (simp add: takeWhile_append1)
  moreover have "takeWhile (\<lambda>z. z \<noteq> y) (a @ m @ b) = a @ takeWhile (\<lambda>z. z \<noteq> y) (m @ b)"
    using assms(2) by (intro takeWhile_append2) auto
  ultimately show ?thesis using x y by (simp add: precedes_def)
qed

lemma descendant_precedes:
  "shape els t \<Longrightarrow> distinct (postorder t) \<Longrightarrow> j \<in> set (postorder t)
   \<Longrightarrow> (j, c) \<in> (child_rel els)\<^sup>+ \<Longrightarrow> precedes c j (postorder t)"
proof (induction t)
  case (Node i ts)
  let ?xs = "concat (map postorder ts)"
  have d: "distinct ?xs" and i: "i \<notin> set ?xs" using Node.prems(2) by simp_all
  show ?case
  proof (cases "j = i")
    case True
    have "c \<in> set ?xs" using descendants_of_root [OF Node.prems(1)] Node.prems(4) True by blast
    moreover have "takeWhile (\<lambda>z. z \<noteq> i) (?xs @ [i]) = ?xs"
      using i by (rule takeWhile_until_last)
    ultimately show ?thesis by (simp add: precedes_def True)
  next
    case False
    then obtain t' where t': "t' \<in> set ts" "j \<in> set (postorder t')" using Node.prems(3) by auto
    from split_list [OF t'(1)] obtain ts1 ts2 where ts: "ts = ts1 @ t' # ts2" by blast
    let ?a = "concat (map postorder ts1)"
    let ?b = "concat (map postorder ts2) @ [i]"
    have eq: "postorder (Node i ts) = ?a @ postorder t' @ ?b" by (simp add: ts)
    have dd: "distinct (?a @ postorder t' @ ?b)" using Node.prems(2) by (simp only: eq)
    have dt: "distinct (postorder t')" using dd by (metis distinct_append)
    have "set ?a \<inter> set (postorder t' @ ?b) = {}" using dd by (metis distinct_append)
    then have ja: "j \<notin> set ?a" using t'(2) by auto
    have "shape els t'" using Node.prems(1) t' by (simp add: list_all_iff)
    then have "precedes c j (postorder t')" using Node.IH t' dt Node.prems(4) by blast
    then show ?thesis unfolding eq using ja by (rule precedes_embed)
  qed
qed

lemma update_on_tree:
  assumes "shape (elements s) t" and "root t = self" and "length (postorder t) \<le> fuel" and "loop s"
  shows "\<exists>batch. update fuel self s =
            Some (None, s\<lparr>emitted := emitted s @
                    [\<lparr> m_event = ''update'', m_elements = batch, m_room = client_room s \<rparr>]\<rparr>)
          \<and> (\<forall>i. dict_get batch i = (if i \<in> set (postorder t) then serialized_at (elements s) i else None))
          \<and> (distinct (postorder t) \<longrightarrow> dict_keys batch = postorder t)"
proof -
  have c: "collect_ids fuel (elements s) self [] = Some (Inr (postorder t))"
    using collect_ids_tree [OF assms(1) assms(3), of "[]"] assms(2) by simp
  have "\<And>i. i \<in> set (postorder t) \<Longrightarrow> dict_has (elements s) i"
    using shape_proper [OF assms(1)] proper_slots_has by blast
  from serialize_all_get [OF this, of "postorder t" "[]"]
  obtain batch where b: "serialize_all (elements s) (postorder t) [] = Inr batch"
    and get: "\<forall>i. dict_get batch i = (if i \<in> set (postorder t) then serialized_at (elements s) i else None)"
    and keys: "distinct (postorder t) \<longrightarrow> dict_keys batch = postorder t"
    by (auto simp add: dict_keys_def)
  have "update fuel self s = Some (None, s\<lparr>emitted := emitted s @
                    [\<lparr> m_event = ''update'', m_elements = batch, m_room = client_room s \<rparr>]\<rparr>)"
    by (simp add: update_def assms(4) c b)
  then show ?thesis using get keys by blast
qed

lemma update_on_tree_state:
  assumes "shape (elements s) t" and "root t = self" and "length (postorder t) \<le> fuel"
  shows "\<exists>ms. update fuel self s = Some (None, s\<lparr>emitted := emitted s @ ms\<rparr>)
            \<and> length ms = (if loop s then 1 else 0)"
proof (cases "loop s")
  case True
  from update_on_tree [OF assms True] obtain batch where
    "update fuel self s = Some (None, s\<lparr>emitted := emitted s @
                    [\<lparr> m_event = ''update'', m_elements = batch, m_room = client_room s \<rparr>]\<rparr>)"
    by blast
  then show ?thesis using True by (intro exI [of _ "[\<lparr> m_event = ''update'', m_elements = batch, m_room = client_room s \<rparr>]"]) simp
next
  case False
  then show ?thesis by (intro exI [of _ "[]"]) (simp add: update_def)
qed

text \<open>
  Claim C4. Let the store hold a tree \<open>t\<close> below the element (no id twice) and let the event
  loop be active. Then \<open>update\<close>, given fuel for the nodes of the tree, returns without an
  exception and schedules exactly one message. The ids of its batch are those of \<open>t\<close> in
  postorder; they are exactly the ids reachable from the element through children (itself
  included, so nothing of a sibling or an ancestor); their number is one plus the number of
  the proper descendants; every id carries the \<open>to_dict\<close> of its element, whose \<open>slots\<close>
  field is the element's dictionary from slot name to child ids; and every descendant of an
  id of the batch stands before that id.\<close>

theorem update_collects_owned_subtree:
  assumes "loop s" and "shape (elements s) t" and "root t = self" and "distinct (postorder t)"
    and "length (postorder t) \<le> fuel"
  shows "\<exists>batch. update fuel self s =
            Some (None, s\<lparr>emitted := emitted s @
                    [\<lparr> m_event = ''update'', m_elements = batch, m_room = client_room s \<rparr>]\<rparr>)
          \<and> dict_keys batch = postorder t
          \<and> set (dict_keys batch) = {j. (self, j) \<in> (child_rel (elements s))\<^sup>*}
          \<and> length batch = 1 + card {j. (self, j) \<in> (child_rel (elements s))\<^sup>+}
          \<and> (\<forall>j \<in> set (dict_keys batch). \<exists>e. dict_get (elements s) j = Some e
                  \<and> dict_get batch j = Some (to_dict e) \<and> s_slots (to_dict e) = slots e)
          \<and> (\<forall>j \<in> set (dict_keys batch). \<forall>c. (j, c) \<in> (child_rel (elements s))\<^sup>+
                  \<longrightarrow> precedes c j (dict_keys batch))"
proof -
  from update_on_tree [OF assms(2) assms(3) assms(5) assms(1)] assms(4)
  obtain batch where u: "update fuel self s =
            Some (None, s\<lparr>emitted := emitted s @
                    [\<lparr> m_event = ''update'', m_elements = batch, m_room = client_room s \<rparr>]\<rparr>)"
    and get: "\<forall>i. dict_get batch i = (if i \<in> set (postorder t) then serialized_at (elements s) i else None)"
    and keys: "dict_keys batch = postorder t"
    by blast
  have reach: "set (dict_keys batch) = {j. (self, j) \<in> (child_rel (elements s))\<^sup>*}"
    using subtree_is_reachable [OF assms(2)] assms(3) keys by simp
  obtain ts where t: "t = Node self ts" using assms(3) by (cases t) simp
  have desc: "{j. (self, j) \<in> (child_rel (elements s))\<^sup>+} = set (concat (map postorder ts))"
    using descendants_of_root assms(2) t by blast
  have "distinct (concat (map postorder ts))" using assms(4) t by simp
  then have "card (set (concat (map postorder ts))) = length (concat (map postorder ts))"
    by (rule distinct_card)
  then have "card {j. (self, j) \<in> (child_rel (elements s))\<^sup>+} = length (concat (map postorder ts))"
    by (simp only: desc)
  moreover have "length batch = length (dict_keys batch)" by (simp add: dict_keys_def)
  ultimately have count: "length batch = 1 + card {j. (self, j) \<in> (child_rel (elements s))\<^sup>+}"
    using keys t by simp
  have ser: "\<forall>j \<in> set (dict_keys batch). \<exists>e. dict_get (elements s) j = Some e
                  \<and> dict_get batch j = Some (to_dict e) \<and> s_slots (to_dict e) = slots e"
  proof
    fix j assume j: "j \<in> set (dict_keys batch)"
    then have jt: "j \<in> set (postorder t)" using keys by simp
    from shape_proper [OF assms(2) jt] obtain e where e: "dict_get (elements s) j = Some e"
      and d: "distinct (dict_keys (slots e))"
      by (auto simp add: proper_slots_def split: option.splits)
    have "dict_get batch j = Some (to_dict e)" using get jt e by (simp add: serialized_at_def)
    then show "\<exists>e. dict_get (elements s) j = Some e
                  \<and> dict_get batch j = Some (to_dict e) \<and> s_slots (to_dict e) = slots e"
      using e to_dict_slots [OF d] by blast
  qed
  have ord: "\<forall>j \<in> set (dict_keys batch). \<forall>c. (j, c) \<in> (child_rel (elements s))\<^sup>+
                  \<longrightarrow> precedes c j (dict_keys batch)"
    using descendant_precedes [OF assms(2) assms(4)] keys by simp
  show ?thesis using u keys reach count ser ord by blast
qed

theorem update_collects_owned_subtree_witness:
  "loop demo \<and> shape (elements demo) demo_tree \<and> root demo_tree = 0
   \<and> distinct (postorder demo_tree) \<and> length (postorder demo_tree) \<le> 4
   \<and> (\<exists>batch. update 4 0 demo =
          Some (None, demo\<lparr>emitted := emitted demo @
                  [\<lparr> m_event = ''update'', m_elements = batch, m_room = client_room demo \<rparr>]\<rparr>)
        \<and> dict_keys batch = [3, 1, 2, 0])"
proof -
  have h1: "loop demo" by (simp add: demo_def)
  have h2: "shape (elements demo) demo_tree"
    by (simp add: demo_def demo_tree_def blank_def proper_slots_def children_of_def dict_keys_def)
  have h3: "root demo_tree = 0" by (simp add: demo_tree_def)
  have p: "postorder demo_tree = [3, 1, 2, 0]" by (simp add: demo_tree_def)
  have h4: "distinct (postorder demo_tree)" by (simp add: p)
  have h5: "length (postorder demo_tree) \<le> 4" by (simp add: p)
  from update_collects_owned_subtree [OF h1 h2 h3 h4 h5]
  obtain batch where "update 4 0 demo =
          Some (None, demo\<lparr>emitted := emitted demo @
                  [\<lparr> m_event = ''update'', m_elements = batch, m_room = client_room demo \<rparr>]\<rparr>)"
    and "dict_keys batch = postorder demo_tree"
    by blast
  then show ?thesis using h1 h2 h3 h4 h5 p by auto
qed

section \<open>A method that changes one element and then updates\<close>

lemma children_of_put:
  "dict_get els i = Some e \<Longrightarrow> slots e' = slots e
   \<Longrightarrow> children_of (dict_set i e' els) j = children_of els j"
  by (simp add: children_of_def dict_get_set)

lemma proper_slots_put:
  "dict_get els i = Some e \<Longrightarrow> slots e' = slots e
   \<Longrightarrow> proper_slots (dict_set i e' els) j = proper_slots els j"
  by (simp add: proper_slots_def dict_get_set)

lemma shape_put:
  "shape els t \<Longrightarrow> dict_get els i = Some e \<Longrightarrow> slots e' = slots e \<Longrightarrow> shape (dict_set i e' els) t"
  by (induction t) (simp add: children_of_put proper_slots_put list_all_iff)

lemma update_after_put:
  assumes "shape (elements s) t" and "root t = self" and "length (postorder t) \<le> fuel"
    and "dict_get (elements s) i = Some e" and "slots e' = slots e"
  shows "\<exists>ms. update fuel self (put_element i e' s)
              = Some (None, s\<lparr>elements := dict_set i e' (elements s), emitted := emitted s @ ms\<rparr>)
            \<and> length ms = (if loop s then 1 else 0)"
proof -
  have "shape (elements (put_element i e' s)) t"
    using shape_put [OF assms(1) assms(4) assms(5)] by (simp add: put_element_def)
  from update_on_tree_state [OF this assms(2) assms(3)]
  show ?thesis by (simp add: put_element_def)
qed

lemma same_state:
  "dict_get (elements s) self = Some e \<Longrightarrow> e' = e
   \<Longrightarrow> s\<lparr>elements := dict_set self e' (elements s), emitted := emitted s @ []\<rparr> = s"
  by (simp add: dict_set_same)


section \<open>Classes\<close>

lemma set_dedup_first: "set (dedup_first xs) = set xs"
  by (induction xs rule: dedup_first.induct) auto

lemma distinct_dedup_first: "distinct (dedup_first xs)"
  by (induction xs rule: dedup_first.induct) (auto simp add: set_dedup_first)

lemma dedup_first_absorb:
  "distinct xs \<Longrightarrow> set ys \<subseteq> set xs \<Longrightarrow> dedup_first (xs @ ys) = xs"
proof (induction xs arbitrary: ys)
  case Nil
  then show ?case by simp
next
  case (Cons x xs)
  have "filter (\<lambda>y. y \<noteq> x) (xs @ ys) = xs @ filter (\<lambda>y. y \<noteq> x) ys"
    using Cons.prems(1) by (auto simp add: filter_id_conv)
  moreover have "set (filter (\<lambda>y. y \<noteq> x) ys) \<subseteq> set xs" using Cons.prems(2) by auto
  ultimately show ?case using Cons.IH Cons.prems(1) by simp
qed

lemma fromkeys_from:
  "dict_keys (dict_update acc (map (\<lambda>k. (k, ())) xs))
     = dict_keys acc @ dedup_first (filter (\<lambda>x. x \<notin> set (dict_keys acc)) xs)"
proof (induction xs arbitrary: acc)
  case Nil
  show ?case by (simp add: dict_update_def)
next
  case (Cons x xs)
  have step: "dict_update acc (map (\<lambda>k. (k, ())) (x # xs))
                = dict_update (dict_set x () acc) (map (\<lambda>k. (k, ())) xs)"
    by (simp add: dict_update_def)
  show ?case
  proof (cases "x \<in> set (dict_keys acc)")
    case True
    then have "dict_keys (dict_set x () acc) = dict_keys acc" by (simp add: dict_keys_set)
    then show ?thesis unfolding step using True Cons.IH [of "dict_set x () acc"] by simp
  next
    case False
    then have k: "dict_keys (dict_set x () acc) = dict_keys acc @ [x]" by (simp add: dict_keys_set)
    have "filter (\<lambda>y. y \<noteq> x) (filter (\<lambda>x. x \<notin> set (dict_keys acc)) xs)
            = filter (\<lambda>y. y \<notin> set (dict_keys acc @ [x])) xs"
      by (induction xs) auto
    then show ?thesis unfolding step using False Cons.IH [of "dict_set x () acc"] by (simp add: k)
  qed
qed

lemma dict_fromkeys_keys: "dict_keys (dict_fromkeys xs) = dedup_first xs"
  using fromkeys_from [of "[]" xs] by (simp add: dict_fromkeys_def dict_of_pairs_def dict_keys_def)

lemma new_class_list_spec: "new_class_list current add remove replace = spec_class_list current add remove replace"
  by (simp add: new_class_list_def spec_class_list_def dict_fromkeys_keys Let_def)

lemma classes_unchanged:
  "dict_get (elements s) self = Some e
   \<Longrightarrow> classes_f e = spec_class_list (classes_f e) add remove replace
   \<Longrightarrow> classes fuel add remove replace self s = Some (Inr self, s)"
  by (simp add: classes_def new_class_list_spec)

lemma classes_changed:
  assumes "dict_get (elements s) self = Some e"
    and "shape (elements s) t" and "root t = self" and "length (postorder t) \<le> fuel"
    and "classes_f e \<noteq> spec_class_list (classes_f e) add remove replace"
  shows "\<exists>ms. classes fuel add remove replace self s =
            Some (Inr self,
                  s\<lparr>elements := dict_set self
                        (e\<lparr>classes_f := spec_class_list (classes_f e) add remove replace\<rparr>) (elements s),
                    emitted := emitted s @ ms\<rparr>)
          \<and> length ms = (if loop s then 1 else 0)"
proof -
  let ?new = "spec_class_list (classes_f e) add remove replace"
  from update_after_put [OF assms(2) assms(3) assms(4) assms(1), of "e\<lparr>classes_f := ?new\<rparr>"]
  obtain ms where u: "update fuel self (put_element self (e\<lparr>classes_f := ?new\<rparr>) s)
              = Some (None, s\<lparr>elements := dict_set self (e\<lparr>classes_f := ?new\<rparr>) (elements s), emitted := emitted s @ ms\<rparr>)"
    and l: "length ms = (if loop s then 1 else 0)"
    by auto
  have "classes fuel add remove replace self s =
            Some (Inr self, s\<lparr>elements := dict_set self (e\<lparr>classes_f := ?new\<rparr>) (elements s),
                    emitted := emitted s @ ms\<rparr>)"
    using assms(5) u by (simp add: classes_def assms(1) new_class_list_spec then_return_def)
  then show ?thesis using l by blast
qed

lemma spec_class_list_add:
  "spec_class_list current (Some x) None None = dedup_first (current @ split_ws x)"
  by (simp add: spec_class_list_def or_empty_def split_ws_def)

text \<open>
  Claim C3. Let the store hold a tree below the element, and let there be fuel for its
  nodes. Then \<open>classes\<close> returns the element itself, and afterwards the element has the
  class list of the specification (\<open>spec_class_list\<close>) and is otherwise as before, no other
  element has changed, and messages were at most added. In particular the list built by
  \<open>classes(add="b a")\<close> and then \<open>classes(add="c")\<close> from the empty list is
  \<open>["b", "a", "c"]\<close>.\<close>

theorem classes_merges_as_specified:
  assumes "dict_get (elements s) self = Some e"
    and "shape (elements s) t" and "root t = self" and "length (postorder t) \<le> fuel"
  shows "(\<exists>ms. classes fuel add remove replace self s =
            Some (Inr self,
                  s\<lparr>elements := dict_set self
                        (e\<lparr>classes_f := spec_class_list (classes_f e) add remove replace\<rparr>) (elements s),
                    emitted := emitted s @ ms\<rparr>))
         \<and> new_class_list (new_class_list [] (Some ''b a'') None None) (Some ''c'') None None
             = [''b'', ''a'', ''c'']"
proof -
  let ?new = "spec_class_list (classes_f e) add remove replace"
  have ex: "new_class_list (new_class_list [] (Some ''b a'') None None) (Some ''c'') None None
             = [''b'', ''a'', ''c'']"
    by (simp add: new_class_list_def dict_fromkeys_def dict_of_pairs_def dict_update_def dict_keys_def
        split_ws_def or_empty_def is_space_def Let_def)
  have "\<exists>ms. classes fuel add remove replace self s =
            Some (Inr self, s\<lparr>elements := dict_set self (e\<lparr>classes_f := ?new\<rparr>) (elements s),
                    emitted := emitted s @ ms\<rparr>)"
  proof (cases "classes_f e = ?new")
    case True
    then have "e\<lparr>classes_f := ?new\<rparr> = e" by simp
    from same_state [OF assms(1) this] classes_unchanged [OF assms(1) True, of fuel]
    show ?thesis by (intro exI [of _ "[]"]) simp
  next
    case False
    from classes_changed [OF assms False] show ?thesis by blast
  qed
  then show ?thesis using ex by blast
qed

theorem classes_merges_as_specified_witness:
  "dict_get (elements demo) 3 = Some (blank 3 ''q-btn'') \<and> shape (elements demo) (Node 3 [])
   \<and> root (Node 3 []) = 3 \<and> length (postorder (Node 3 [])) \<le> 1
   \<and> (\<exists>ms. classes 1 (Some ''b a'') None None 3 demo =
          Some (Inr 3,
                demo\<lparr>elements := dict_set 3 ((blank 3 ''q-btn'')\<lparr>classes_f := [''b'', ''a'']\<rparr>)
                                   (elements demo),
                     emitted := emitted demo @ ms\<rparr>))"
proof -
  have h1: "dict_get (elements demo) 3 = Some (blank 3 ''q-btn'')" by (simp add: demo_def)
  have h2: "shape (elements demo) (Node 3 [])"
    by (simp add: demo_def blank_def proper_slots_def children_of_def dict_keys_def)
  have h3: "root (Node 3 []) = 3" by simp
  have h4: "length (postorder (Node 3 [])) \<le> 1" by simp
  have c: "spec_class_list (classes_f (blank 3 ''q-btn'')) (Some ''b a'') None None = [''b'', ''a'']"
    by (simp add: spec_class_list_def blank_def split_ws_def or_empty_def is_space_def)
  from classes_merges_as_specified [OF h1 h2 h3 h4, of "Some ''b a''" None None]
  have "\<exists>ms. classes 1 (Some ''b a'') None None 3 demo =
          Some (Inr 3,
                demo\<lparr>elements := dict_set 3 ((blank 3 ''q-btn'')\<lparr>classes_f := [''b'', ''a'']\<rparr>)
                                   (elements demo),
                     emitted := emitted demo @ ms\<rparr>)"
    by (simp only: c)
  then show ?thesis using h1 h2 h3 h4 by blast
qed

text \<open>
  Claim C7. Under the same conditions \<open>classes(add=x)\<close> returns the element and leaves its
  class list without duplicates, and a second \<open>classes(add=x)\<close> returns the element with
  the state as the first call left it: the same class list and no further message.
  Likewise a call on an element that has every token of \<open>x\<close> already (its class list being
  free of duplicates, as every class list is that the methods produce) leaves the state as
  it is, so that nothing is dispatched.\<close>

theorem classes_add_is_idempotent:
  assumes "dict_get (elements s) self = Some e"
    and "shape (elements s) t" and "root t = self" and "length (postorder t) \<le> fuel"
  shows "\<exists>s1 e1. classes fuel (Some x) None None self s = Some (Inr self, s1)
           \<and> dict_get (elements s1) self = Some e1
           \<and> distinct (classes_f e1)
           \<and> classes fuel (Some x) None None self s1 = Some (Inr self, s1)
           \<and> (distinct (classes_f e) \<and> set (split_ws x) \<subseteq> set (classes_f e) \<longrightarrow> s1 = s)"
proof -
  let ?new = "spec_class_list (classes_f e) (Some x) None None"
  have absorb: "spec_class_list ?new (Some x) None None = ?new"
    by (simp add: spec_class_list_add dedup_first_absorb distinct_dedup_first set_dedup_first)
  have d: "distinct ?new" by (simp add: spec_class_list_add distinct_dedup_first)
  show ?thesis
  proof (cases "classes_f e = ?new")
    case True
    have 1: "classes fuel (Some x) None None self s = Some (Inr self, s)"
      by (rule classes_unchanged [OF assms(1) True])
    have "distinct (classes_f e)" using d True by simp
    then show ?thesis using 1 assms(1) by blast
  next
    case False
    from classes_changed [OF assms False]
    obtain ms where 1: "classes fuel (Some x) None None self s =
            Some (Inr self, s\<lparr>elements := dict_set self (e\<lparr>classes_f := ?new\<rparr>) (elements s),
                    emitted := emitted s @ ms\<rparr>)"
      by blast
    let ?s1 = "s\<lparr>elements := dict_set self (e\<lparr>classes_f := ?new\<rparr>) (elements s), emitted := emitted s @ ms\<rparr>"
    have g: "dict_get (elements ?s1) self = Some (e\<lparr>classes_f := ?new\<rparr>)"
      by (simp add: dict_get_set)
    have "classes_f (e\<lparr>classes_f := ?new\<rparr>)
            = spec_class_list (classes_f (e\<lparr>classes_f := ?new\<rparr>)) (Some x) None None"
      using absorb by simp
    from classes_unchanged [OF g this]
    have 2: "classes fuel (Some x) None None self ?s1 = Some (Inr self, ?s1)" .
    have 3: "\<not> (distinct (classes_f e) \<and> set (split_ws x) \<subseteq> set (classes_f e))"
      using False by (auto simp add: spec_class_list_add dedup_first_absorb)
    have 4: "distinct (classes_f (e\<lparr>classes_f := ?new\<rparr>))" using d by simp
    show ?thesis using 1 g 4 2 3 by blast
  qed
qed

theorem classes_add_is_idempotent_witness:
  "dict_get (elements demo) 3 = Some (blank 3 ''q-btn'') \<and> shape (elements demo) (Node 3 [])
   \<and> root (Node 3 []) = 3 \<and> length (postorder (Node 3 [])) \<le> 1
   \<and> (\<exists>s1. classes 1 (Some ''x'') None None 3 demo = Some (Inr 3, s1)
          \<and> classes 1 (Some ''x'') None None 3 s1 = Some (Inr 3, s1))"
proof -
  have h1: "dict_get (elements demo) 3 = Some (blank 3 ''q-btn'')" by (simp add: demo_def)
  have h2: "shape (elements demo) (Node 3 [])"
    by (simp add: demo_def blank_def proper_slots_def children_of_def dict_keys_def)
  have h3: "root (Node 3 []) = 3" by simp
  have h4: "length (postorder (Node 3 [])) \<le> 1" by simp
  from classes_add_is_idempotent [OF h1 h2 h3 h4, of "''x''"]
  have "\<exists>s1. classes 1 (Some ''x'') None None 3 demo = Some (Inr 3, s1)
          \<and> classes 1 (Some ''x'') None None 3 s1 = Some (Inr 3, s1)"
    by blast
  then show ?thesis using h1 h2 h3 h4 by blast
qed


section \<open>Visibility\<close>

lemma no_change_state:
  "dict_get (elements s) self = Some e \<Longrightarrow> cs = classes_f e
   \<Longrightarrow> s\<lparr>elements := dict_set self (e\<lparr>classes_f := cs\<rparr>) (elements s), emitted := emitted s @ []\<rparr> = s"
  by (simp add: dict_set_same)

lemma visibility_keeps_distinct:
  "distinct cs \<Longrightarrow>
   distinct (if vis then remove1 ''hidden'' cs
             else if ''hidden'' \<in> set cs then cs else cs @ [''hidden''])"
  by simp

text \<open>
  Claim C8. Under the same conditions \<open>on_visibility_change\<close> returns without an exception.
  The token \<open>hidden\<close> is appended when the element becomes invisible and does not have it,
  and its first occurrence is removed when the element becomes visible and has it; then,
  and only then, one update is made (one message, if the loop is active). In every other
  case the state stays as it is. A second call with the same argument changes nothing and
  dispatches nothing: always for \<open>False\<close>, and for \<open>True\<close> when the class list has no
  duplicates.\<close>

theorem visibility_toggle_is_idempotent:
  assumes "dict_get (elements s) self = Some e"
    and "shape (elements s) t" and "root t = self" and "length (postorder t) \<le> fuel"
  shows "\<exists>s1 ms. on_visibility_change fuel vis self s = Some (None, s1)
      \<and> s1 = s\<lparr>elements := dict_set self
                   (e\<lparr>classes_f :=
                       (if vis then remove1 ''hidden'' (classes_f e)
                        else if ''hidden'' \<in> set (classes_f e) then classes_f e
                        else classes_f e @ [''hidden''])\<rparr>) (elements s),
                emitted := emitted s @ ms\<rparr>
      \<and> length ms = (if loop s \<and> (vis = (''hidden'' \<in> set (classes_f e))) then 1 else 0)
      \<and> (vis \<noteq> (''hidden'' \<in> set (classes_f e)) \<longrightarrow> s1 = s)
      \<and> (\<not> vis \<or> distinct (classes_f e) \<longrightarrow> on_visibility_change fuel vis self s1 = Some (None, s1))"
proof -
  let ?h = "''hidden''"
  let ?cs = "classes_f e"
  consider (reveal) "vis" "?h \<in> set ?cs" | (conceal) "\<not> vis" "?h \<notin> set ?cs"
    | (same) "vis \<noteq> (?h \<in> set ?cs)" by blast
  then show ?thesis
  proof cases
    case reveal
    let ?e1 = "e\<lparr>classes_f := remove1 ?h ?cs\<rparr>"
    from update_after_put [OF assms(2) assms(3) assms(4) assms(1), of ?e1]
    obtain ms where u: "update fuel self (put_element self ?e1 s)
              = Some (None, s\<lparr>elements := dict_set self ?e1 (elements s), emitted := emitted s @ ms\<rparr>)"
      and l: "length ms = (if loop s then 1 else 0)"
      by auto
    let ?s1 = "s\<lparr>elements := dict_set self ?e1 (elements s), emitted := emitted s @ ms\<rparr>"
    have g: "dict_get (elements ?s1) self = Some ?e1" by (simp add: dict_get_set)
    have 1: "on_visibility_change fuel vis self s = Some (None, ?s1)"
      using reveal u g by (simp add: on_visibility_change_def show_step_def hide_step_def assms(1))
    have 2: "distinct ?cs \<longrightarrow> on_visibility_change fuel vis self ?s1 = Some (None, ?s1)"
      using reveal g by (simp add: on_visibility_change_def show_step_def hide_step_def)
    show ?thesis using 1 2 l reveal by (intro exI [of _ ?s1] exI [of _ ms]) simp
  next
    case conceal
    let ?e1 = "e\<lparr>classes_f := ?cs @ [?h]\<rparr>"
    from update_after_put [OF assms(2) assms(3) assms(4) assms(1), of ?e1]
    obtain ms where u: "update fuel self (put_element self ?e1 s)
              = Some (None, s\<lparr>elements := dict_set self ?e1 (elements s), emitted := emitted s @ ms\<rparr>)"
      and l: "length ms = (if loop s then 1 else 0)"
      by auto
    let ?s1 = "s\<lparr>elements := dict_set self ?e1 (elements s), emitted := emitted s @ ms\<rparr>"
    have g: "dict_get (elements ?s1) self = Some ?e1" by (simp add: dict_get_set)
    have 1: "on_visibility_change fuel vis self s = Some (None, ?s1)"
      using conceal u by (simp add: on_visibility_change_def show_step_def hide_step_def assms(1))
    have 2: "on_visibility_change fuel vis self ?s1 = Some (None, ?s1)"
      using conceal g by (simp add: on_visibility_change_def show_step_def hide_step_def)
    show ?thesis using 1 2 l conceal by (intro exI [of _ ?s1] exI [of _ ms]) simp
  next
    case same
    have 1: "on_visibility_change fuel vis self s = Some (None, s)"
      using same by (auto simp add: on_visibility_change_def show_step_def hide_step_def assms(1))
    have "(if vis then remove1 ?h ?cs else if ?h \<in> set ?cs then ?cs else ?cs @ [?h]) = ?cs"
      using same by (auto simp add: remove1_idem)
    from no_change_state [OF assms(1) this]
    have 3: "s\<lparr>elements := dict_set self
                   (e\<lparr>classes_f := (if vis then remove1 ?h ?cs else if ?h \<in> set ?cs then ?cs else ?cs @ [?h])\<rparr>)
                   (elements s), emitted := emitted s @ []\<rparr> = s" .
    show ?thesis
      apply (intro exI [of _ s] exI [of _ "[]"])
      using 1 3 same by auto
  qed
qed

theorem visibility_toggle_is_idempotent_witness:
  "dict_get (elements demo) 3 = Some (blank 3 ''q-btn'') \<and> shape (elements demo) (Node 3 [])
   \<and> root (Node 3 []) = 3 \<and> length (postorder (Node 3 [])) \<le> 1
   \<and> (\<exists>s1. on_visibility_change 1 False 3 demo = Some (None, s1)
          \<and> on_visibility_change 1 False 3 s1 = Some (None, s1))"
proof -
  have h1: "dict_get (elements demo) 3 = Some (blank 3 ''q-btn'')" by (simp add: demo_def)
  have h2: "shape (elements demo) (Node 3 [])"
    by (simp add: demo_def blank_def proper_slots_def children_of_def dict_keys_def)
  have h3: "root (Node 3 []) = 3" by simp
  have h4: "length (postorder (Node 3 [])) \<le> 1" by simp
  from visibility_toggle_is_idempotent [OF h1 h2 h3 h4, of False]
  have "\<exists>s1. on_visibility_change 1 False 3 demo = Some (None, s1)
          \<and> on_visibility_change 1 False 3 s1 = Some (None, s1)"
    by auto
  then show ?thesis using h1 h2 h3 h4 by blast
qed


section \<open>Style\<close>

lemma dict_eq_iff: "dict_eq a b \<longleftrightarrow> (\<forall>k. dict_get a k = dict_get b k)"
proof
  assume eq: "dict_eq a b"
  show "\<forall>k. dict_get a k = dict_get b k"
  proof
    fix k
    show "dict_get a k = dict_get b k"
    proof (cases "k \<in> set (dict_keys a @ dict_keys b)")
      case True
      then show ?thesis using eq by (simp add: dict_eq_def list_all_iff)
    next
      case False
      then have "dict_get a k = None" "dict_get b k = None" by (simp_all add: dict_get_None_iff)
      then show ?thesis by simp
    qed
  qed
next
  assume "\<forall>k. dict_get a k = dict_get b k"
  then show "dict_eq a b" by (simp add: dict_eq_def list_all_iff)
qed

lemma dict_eq_refl: "dict_eq d d"
  by (simp add: dict_eq_iff)

lemma dict_del_absent: "\<not> dict_has d k \<Longrightarrow> dict_del k d = d"
  by (induction d) (auto simp add: dict_has_def split: if_splits)

lemma dict_get_fold_del:
  "dict_get (fold dict_del ks d) k = (if k \<in> set ks then None else dict_get d k)"
  by (induction ks arbitrary: d) (auto simp add: dict_get_del)

lemma dict_has_del: "dict_has (dict_del k d) k' \<longleftrightarrow> k' \<noteq> k \<and> dict_has d k'"
  by (simp add: dict_has_def dict_get_del)

lemma del_keys_append:
  "del_keys (xs @ ys) r h =
     (case del_keys xs r h of (None, h') \<Rightarrow> del_keys ys r h' | (Some err, h') \<Rightarrow> (Some err, h'))"
  by (induction xs arbitrary: h) auto

lemma del_keys_present:
  "distinct ks \<Longrightarrow> \<forall>k \<in> set ks. dict_has (self_style h) k
   \<Longrightarrow> del_keys ks SelfStyle h = (None, h\<lparr>self_style := fold dict_del ks (self_style h)\<rparr>)"
proof (induction ks arbitrary: h)
  case Nil
  show ?case by simp
next
  case (Cons k ks)
  let ?h = "assign SelfStyle (dict_del k (deref SelfStyle h)) h"
  have h: "self_style ?h = dict_del k (self_style h)" by (simp add: assign_def deref_def)
  have "\<forall>k' \<in> set ks. dict_has (self_style ?h) k'"
    using Cons.prems by (auto simp add: h dict_has_del)
  then have "del_keys ks SelfStyle ?h = (None, ?h\<lparr>self_style := fold dict_del ks (self_style ?h)\<rparr>)"
    using Cons.IH Cons.prems(1) by simp
  then show ?case using Cons.prems(2) by (simp add: h deref_def) (simp add: assign_def deref_def)
qed

lemma del_keys_first_absent:
  assumes "distinct pre" and "\<forall>k' \<in> set pre. dict_has (self_style h) k'"
    and "k \<notin> set pre" and "\<not> dict_has (self_style h) k"
  shows "del_keys (pre @ k # post) SelfStyle h
           = (Some (KeyError k), h\<lparr>self_style := fold dict_del pre (self_style h)\<rparr>)"
proof -
  have "\<not> dict_has (fold dict_del pre (self_style h)) k"
    using assms(4) by (simp add: dict_has_def dict_get_fold_del)
  then show ?thesis
    by (simp add: del_keys_append del_keys_present [OF assms(1) assms(2)] deref_def)
qed

lemma dict_of_seqs_distinct:
  "dict_of_seqs seqs d = Inr r \<Longrightarrow> distinct (dict_keys d) \<Longrightarrow> distinct (dict_keys r)"
proof (induction seqs arbitrary: d)
  case Nil
  then show ?case by simp
next
  case (Cons ws rest)
  then show ?case
    by (auto simp add: distinct_dict_set split: list.splits)
qed

lemma parse_style_distinct: "parse_style text = Inr d \<Longrightarrow> distinct (dict_keys d)"
  using dict_of_seqs_distinct [of _ "[]" d]
  by (auto simp add: parse_style_def dict_keys_def split: if_splits)

lemma parse_style_None: "parse_style None = Inr []"
  by (simp add: parse_style_def truthy_def)

lemma dict_update_Nil: "dict_update d [] = d"
  by (simp add: dict_update_def)

lemma style_raises_at_first_absent:
  assumes "dict_get (elements s) self = Some e" and "parse_style remove = Inr removed"
    and "dict_keys removed = pre @ k # post"
    and "\<forall>k' \<in> set pre. dict_has (style_f e) k'" and "\<not> dict_has (style_f e) k"
  shows "style fuel add remove None self s =
           Some (Inl (KeyError k),
                 s\<lparr>elements := dict_set self (e\<lparr>style_f := fold dict_del pre (style_f e)\<rparr>) (elements s)\<rparr>)"
proof -
  have d: "distinct (pre @ k # post)" using parse_style_distinct [OF assms(2)] assms(3) by simp
  then have d1: "distinct pre" and d2: "k \<notin> set pre" by simp_all
  let ?h0 = "\<lparr> self_style = style_f e, new_dict = [] \<rparr>"
  have "del_keys (pre @ k # post) SelfStyle ?h0
          = (Some (KeyError k), ?h0\<lparr>self_style := fold dict_del pre (self_style ?h0)\<rparr>)"
    by (rule del_keys_first_absent) (use assms d1 d2 in simp_all)
  then show ?thesis
    by (simp add: style_def assms(1) assms(2) assms(3) put_element_def)
qed

lemma style_removes_present:
  assumes "dict_get (elements s) self = Some e" and "parse_style remove = Inr removed"
    and "\<forall>k \<in> set (dict_keys removed). dict_has (style_f e) k"
  shows "style fuel None remove None self s =
           Some (Inr self,
                 s\<lparr>elements := dict_set self
                       (e\<lparr>style_f := fold dict_del (dict_keys removed) (style_f e)\<rparr>) (elements s)\<rparr>)"
proof -
  let ?h0 = "\<lparr> self_style = style_f e, new_dict = [] \<rparr>"
  have "del_keys (dict_keys removed) SelfStyle ?h0
          = (None, ?h0\<lparr>self_style := fold dict_del (dict_keys removed) (self_style ?h0)\<rparr>)"
    by (rule del_keys_present) (use assms parse_style_distinct [OF assms(2)] in simp_all)
  then show ?thesis
    by (simp add: style_def assms(1) assms(2) put_element_def parse_style_None dict_update_Nil
          assign_def deref_def dict_eq_refl)
qed

lemma style_without_replace_never_dispatches:
  "\<exists>r s'. style fuel add remove None self s = Some (r, s') \<and> emitted s' = emitted s"
  by (simp add: style_def put_element_def deref_def assign_def dict_eq_refl Let_def
        split: option.splits sum.splits prod.splits)

lemma style_with_replace_dispatches_on_change:
  assumes "dict_get (elements s) self = Some e"
    and "shape (elements s) t" and "root t = self" and "length (postorder t) \<le> fuel"
    and "parse_style remove = Inr []" and "parse_style add = Inr added"
    and "parse_style (Some replace) = Inr replaced"
  shows "(dict_eq (style_f e) (dict_update (dict_update [] added) replaced)
            \<longrightarrow> style fuel add remove (Some replace) self s = Some (Inr self, s))
       \<and> (\<not> dict_eq (style_f e) (dict_update (dict_update [] added) replaced)
            \<longrightarrow> (\<exists>ms. style fuel add remove (Some replace) self s =
                    Some (Inr self,
                          s\<lparr>elements := dict_set self
                                (e\<lparr>style_f := dict_update (dict_update [] added) replaced\<rparr>) (elements s),
                            emitted := emitted s @ ms\<rparr>)
                  \<and> length ms = (if loop s then 1 else 0)))"
proof -
  let ?new = "dict_update (dict_update [] added) replaced"
  from update_after_put [OF assms(2) assms(3) assms(4) assms(1), of "e\<lparr>style_f := ?new\<rparr>"]
  obtain ms where u: "update fuel self (put_element self (e\<lparr>style_f := ?new\<rparr>) s)
              = Some (None, s\<lparr>elements := dict_set self (e\<lparr>style_f := ?new\<rparr>) (elements s), emitted := emitted s @ ms\<rparr>)"
    and l: "length ms = (if loop s then 1 else 0)"
    by auto
  have 1: "dict_eq (style_f e) ?new \<longrightarrow> style fuel add remove (Some replace) self s = Some (Inr self, s)"
    by (simp add: style_def assms(1) assms(5) assms(6) assms(7) dict_keys_def put_element_def
          deref_def assign_def dict_set_same)
  have 2: "\<not> dict_eq (style_f e) ?new \<longrightarrow> style fuel add remove (Some replace) self s =
                    Some (Inr self,
                          s\<lparr>elements := dict_set self (e\<lparr>style_f := ?new\<rparr>) (elements s),
                            emitted := emitted s @ ms\<rparr>)"
    using u by (simp add: style_def assms(1) assms(5) assms(6) assms(7) dict_keys_def
          deref_def assign_def then_return_def)
  show ?thesis using 1 2 l by blast
qed

text \<open>
  Claim C1. The claim fails on the code when \<open>replace\<close> is omitted: \<open>style_dict\<close> is then
  the very dictionary of \<open>self._style\<close>, the comparison \<open>self._style != style_dict\<close> compares
  it with itself, and \<open>update\<close> is never called. Here the loop is active, the button has no
  style, and \<open>style(add="color: red")\<close> returns the button with the style
  \<open>color: red\<close>, a mapping that differs from the one before, while the list of scheduled
  messages is what it was.\<close>

theorem style_add_changes_without_update:
  "loop demo
   \<and> style 1 (Some ''color: red'') None None 3 demo = Some (Inr 3, demo_styled)
   \<and> dict_get (elements demo) 3 = Some (blank 3 ''q-btn'')
   \<and> dict_get (elements demo_styled) 3 = Some ((blank 3 ''q-btn'')\<lparr>style_f := [(''color'', ''red'')]\<rparr>)
   \<and> \<not> dict_eq (style_f (blank 3 ''q-btn'')) [(''color'', ''red'')]
   \<and> emitted demo_styled = emitted demo"
  by (simp add: demo_styled_def demo_def style_def parse_style_def truthy_def or_empty_def
        strip_chars_def strip_def is_space_def blank_def put_element_def deref_def assign_def
        dict_update_def dict_eq_def dict_keys_def split_on_def)

text \<open>
  Claim C2. Let \<open>remove\<close> parse. If one of its keys is absent from the style of the
  element, \<open>style(remove=...)\<close> raises the lookup error of such a key. If all its keys are
  present, the call returns the element, the style of the element is the old one with these
  keys deleted, nothing else has changed, and the \<open>style\<close> field of \<open>to_dict\<close> has no entry
  for them (and the old entry for every other key).\<close>

theorem style_remove_strict:
  assumes "dict_get (elements s) self = Some e" and "parse_style remove = Inr removed"
  shows "((\<exists>k \<in> set (dict_keys removed). \<not> dict_has (style_f e) k) \<longrightarrow>
            (\<exists>k s'. style fuel None remove None self s = Some (Inl (KeyError k), s')
                 \<and> k \<in> set (dict_keys removed) \<and> \<not> dict_has (style_f e) k))
       \<and> ((\<forall>k \<in> set (dict_keys removed). dict_has (style_f e) k) \<longrightarrow>
            (\<exists>e'. style fuel None remove None self s
                     = Some (Inr self, s\<lparr>elements := dict_set self e' (elements s)\<rparr>)
                 \<and> e' = e\<lparr>style_f := fold dict_del (dict_keys removed) (style_f e)\<rparr>
                 \<and> (\<forall>k. dict_get (s_style (to_dict e')) k
                          = (if k \<in> set (dict_keys removed) then None else dict_get (style_f e) k))))"
proof (intro conjI impI)
  assume "\<exists>k \<in> set (dict_keys removed). \<not> dict_has (style_f e) k"
  from split_list_first_prop [OF this]
  obtain pre k post where ks: "dict_keys removed = pre @ k # post"
    and k: "\<not> dict_has (style_f e) k" and pre: "\<forall>k' \<in> set pre. \<not> \<not> dict_has (style_f e) k'"
    by blast
  from style_raises_at_first_absent [OF assms ks _ k, of fuel None] pre
  have "style fuel None remove None self s =
           Some (Inl (KeyError k),
                 s\<lparr>elements := dict_set self (e\<lparr>style_f := fold dict_del pre (style_f e)\<rparr>) (elements s)\<rparr>)"
    by simp
  moreover have "k \<in> set (dict_keys removed)" using ks by simp
  ultimately show "\<exists>k s'. style fuel None remove None self s = Some (Inl (KeyError k), s')
                 \<and> k \<in> set (dict_keys removed) \<and> \<not> dict_has (style_f e) k"
    using k by blast
next
  assume all: "\<forall>k \<in> set (dict_keys removed). dict_has (style_f e) k"
  let ?e' = "e\<lparr>style_f := fold dict_del (dict_keys removed) (style_f e)\<rparr>"
  have "style fuel None remove None self s
          = Some (Inr self, s\<lparr>elements := dict_set self ?e' (elements s)\<rparr>)"
    by (rule style_removes_present [OF assms all])
  moreover have "\<forall>k. dict_get (s_style (to_dict ?e')) k
                          = (if k \<in> set (dict_keys removed) then None else dict_get (style_f e) k)"
    by (simp add: to_dict_def dict_get_fold_del)
  ultimately show "\<exists>e'. style fuel None remove None self s
                     = Some (Inr self, s\<lparr>elements := dict_set self e' (elements s)\<rparr>)
                 \<and> e' = e\<lparr>style_f := fold dict_del (dict_keys removed) (style_f e)\<rparr>
                 \<and> (\<forall>k. dict_get (s_style (to_dict e')) k
                          = (if k \<in> set (dict_keys removed) then None else dict_get (style_f e) k))"
    by blast
qed

theorem style_remove_strict_witness:
  "dict_get (elements demo_styled) 3 = Some ((blank 3 ''q-btn'')\<lparr>style_f := [(''color'', ''red'')]\<rparr>)
   \<and> parse_style (Some ''color: red'') = Inr [(''color'', ''red'')]
   \<and> (\<exists>e'. style 1 None (Some ''color: red'') None 3 demo_styled
               = Some (Inr 3, demo_styled\<lparr>elements := dict_set 3 e' (elements demo_styled)\<rparr>)
           \<and> style_f e' = [])
   \<and> dict_get (elements demo) 3 = Some (blank 3 ''q-btn'')
   \<and> (\<exists>s'. style 1 None (Some ''color: red'') None 3 demo = Some (Inl (KeyError ''color''), s'))"
proof -
  have h1: "dict_get (elements demo_styled) 3 = Some ((blank 3 ''q-btn'')\<lparr>style_f := [(''color'', ''red'')]\<rparr>)"
    by (simp add: demo_styled_def demo_def)
  have h2: "parse_style (Some ''color: red'') = Inr [(''color'', ''red'')]"
    by (simp add: parse_style_def truthy_def or_empty_def strip_chars_def strip_def is_space_def
          split_on_def)
  have h3: "dict_get (elements demo) 3 = Some (blank 3 ''q-btn'')" by (simp add: demo_def)
  from style_remove_strict [OF h1 h2, of 1]
  obtain e' where "style 1 None (Some ''color: red'') None 3 demo_styled
               = Some (Inr 3, demo_styled\<lparr>elements := dict_set 3 e' (elements demo_styled)\<rparr>)"
    and "e' = (blank 3 ''q-btn'')\<lparr>style_f := [(''color'', ''red'')]\<rparr>
                \<lparr>style_f := fold dict_del (dict_keys [(''color'', ''red'')]) [(''color'', ''red'')]\<rparr>"
    by (auto simp add: dict_keys_def dict_has_def)
  then have a: "\<exists>e'. style 1 None (Some ''color: red'') None 3 demo_styled
               = Some (Inr 3, demo_styled\<lparr>elements := dict_set 3 e' (elements demo_styled)\<rparr>)
           \<and> style_f e' = []"
    by (intro exI [of _ e']) (simp add: dict_keys_def)
  from style_remove_strict [OF h3 h2, of 1]
  have b: "\<exists>s'. style 1 None (Some ''color: red'') None 3 demo = Some (Inl (KeyError ''color''), s')"
    by (simp add: dict_keys_def dict_has_def blank_def)
  show ?thesis using h1 h2 h3 a b by blast
qed

text \<open>
  Claim C6. Let \<open>replace\<close> be omitted, let \<open>remove\<close> parse to keys of which \<open>k\<close> is the first
  that the style of the element lacks, and let \<open>pre\<close> be the keys before it. Then \<open>style\<close>
  raises the lookup error of \<open>k\<close>, and the element it leaves behind has the style without
  the keys of \<open>pre\<close>: their deletions stay. (With \<open>replace\<close> given the deletions act on a
  new dictionary and the element keeps its style, see
  \<open>style_with_replace_keeps_live_map_on_error\<close>.)\<close>

theorem style_remove_is_not_atomic:
  assumes "dict_get (elements s) self = Some e" and "parse_style remove = Inr removed"
    and "dict_keys removed = pre @ k # post"
    and "\<forall>k' \<in> set pre. dict_has (style_f e) k'" and "\<not> dict_has (style_f e) k"
  shows "\<exists>e'. style fuel add remove None self s
           = Some (Inl (KeyError k), s\<lparr>elements := dict_set self e' (elements s)\<rparr>)
         \<and> e' = e\<lparr>style_f := fold dict_del pre (style_f e)\<rparr>
         \<and> dict_get (elements (s\<lparr>elements := dict_set self e' (elements s)\<rparr>)) self = Some e'
         \<and> (\<forall>k'. dict_get (style_f e') k' = (if k' \<in> set pre then None else dict_get (style_f e) k'))"
proof -
  let ?e' = "e\<lparr>style_f := fold dict_del pre (style_f e)\<rparr>"
  have "style fuel add remove None self s
           = Some (Inl (KeyError k), s\<lparr>elements := dict_set self ?e' (elements s)\<rparr>)"
    by (rule style_raises_at_first_absent [OF assms])
  moreover have "\<forall>k'. dict_get (style_f ?e') k' = (if k' \<in> set pre then None else dict_get (style_f e) k')"
    by (simp add: dict_get_fold_del)
  ultimately show ?thesis by (simp add: dict_get_set)
qed

theorem style_remove_is_not_atomic_witness:
  "dict_get (elements demo_styled) 3 = Some ((blank 3 ''q-btn'')\<lparr>style_f := [(''color'', ''red'')]\<rparr>)
   \<and> parse_style (Some ''color: x; width: y'') = Inr [(''color'', ''x''), (''width'', ''y'')]
   \<and> dict_keys [(''color'', ''x''), (''width'', ''y'')] = [''color''] @ ''width'' # []
   \<and> dict_has [(''color'', ''red'')] ''color'' \<and> \<not> dict_has [(''color'', ''red'')] ''width''
   \<and> (\<exists>e'. style 1 None (Some ''color: x; width: y'') None 3 demo_styled
               = Some (Inl (KeyError ''width''),
                       demo_styled\<lparr>elements := dict_set 3 e' (elements demo_styled)\<rparr>)
           \<and> style_f e' = [])"
proof -
  let ?e = "(blank 3 ''q-btn'')\<lparr>style_f := [(''color'', ''red'')]\<rparr>"
  have h1: "dict_get (elements demo_styled) 3 = Some ?e"
    by (simp add: demo_styled_def demo_def)
  have h2: "parse_style (Some ''color: x; width: y'') = Inr [(''color'', ''x''), (''width'', ''y'')]"
    by (simp add: parse_style_def truthy_def or_empty_def strip_chars_def strip_def is_space_def
          split_on_def)
  have h3: "dict_keys [(''color'', ''x''), (''width'', ''y'')] = [''color''] @ ''width'' # []"
    by (simp add: dict_keys_def)
  have h4: "\<forall>k' \<in> set [''color'']. dict_has (style_f ?e) k'" by (simp add: dict_has_def)
  have h5: "\<not> dict_has (style_f ?e) ''width''" by (simp add: dict_has_def)
  from style_remove_is_not_atomic [OF h1 h2 h3 h4 h5, of 1 None]
  obtain e' where "style 1 None (Some ''color: x; width: y'') None 3 demo_styled
               = Some (Inl (KeyError ''width''),
                       demo_styled\<lparr>elements := dict_set 3 e' (elements demo_styled)\<rparr>)"
    and "e' = ?e\<lparr>style_f := fold dict_del [''color''] (style_f ?e)\<rparr>"
    by blast
  then have "\<exists>e'. style 1 None (Some ''color: x; width: y'') None 3 demo_styled
               = Some (Inl (KeyError ''width''),
                       demo_styled\<lparr>elements := dict_set 3 e' (elements demo_styled)\<rparr>)
           \<and> style_f e' = []"
    by (intro exI [of _ e']) simp
  then show ?thesis using h1 h2 h3 h4 h5 by simp
qed

lemma style_with_replace_keeps_live_map_on_error:
  assumes "dict_get (elements s) self = Some e" and "parse_style remove = Inr removed"
    and "dict_keys removed = k # post"
  shows "style fuel add remove (Some replace) self s = Some (Inl (KeyError k), s)"
  by (simp add: style_def assms put_element_def deref_def dict_has_def dict_set_same)


section \<open>Props\<close>

lemma remove_props_result:
  "remove_props ks (nu, ps) = (nu \<or> (\<exists>k \<in> set ks. dict_has ps k), fold dict_del ks ps)"
proof (induction ks arbitrary: nu ps)
  case Nil
  show ?case by (simp add: remove_props_def)
next
  case (Cons k ks)
  have step: "remove_props (k # ks) (nu, ps)
                = remove_props ks (if dict_has ps k then (True, dict_del k ps) else (nu, ps))"
    by (simp add: remove_props_def)
  show ?case
  proof (cases "dict_has ps k")
    case True
    then show ?thesis unfolding step by (simp add: Cons.IH)
  next
    case False
    then show ?thesis unfolding step by (simp add: Cons.IH dict_del_absent)
  qed
qed

lemma add_props_result:
  "add_props items (nu, ps)
     = (nu \<or> (\<exists>(k, v) \<in> set items. dict_get ps k \<noteq> Some v), dict_update ps items)"
proof (induction items arbitrary: nu ps)
  case Nil
  show ?case by (simp add: add_props_def dict_update_def)
next
  case (Cons item items)
  obtain k v where item: "item = (k, v)" by (cases item)
  have step: "add_props (item # items) (nu, ps)
                = add_props items (if dict_get ps k \<noteq> Some v then (True, dict_set k v ps) else (nu, ps))"
    by (simp add: add_props_def item)
  have upd: "dict_update ps (item # items) = dict_update (dict_set k v ps) items"
    by (simp add: dict_update_def item)
  show ?case
  proof (cases "dict_get ps k = Some v")
    case True
    then show ?thesis unfolding step upd by (simp add: Cons.IH dict_set_same item)
  next
    case False
    then show ?thesis unfolding step upd by (simp add: Cons.IH item)
  qed
qed

lemma dict_update_distinct:
  "distinct (dict_keys acc) \<Longrightarrow> distinct (dict_keys (dict_update acc ps))"
proof (induction ps arbitrary: acc)
  case Nil
  then show ?case by (simp add: dict_update_def)
next
  case (Cons p ps)
  obtain k v where p: "p = (k, v)" by (cases p)
  have "dict_update acc (p # ps) = dict_update (dict_set k v acc) ps"
    by (simp add: dict_update_def p)
  then show ?case using Cons.IH [of "dict_set k v acc"] Cons.prems by (simp add: distinct_dict_set)
qed

lemma parse_props_distinct: "parse_props lexer text = Inr d \<Longrightarrow> distinct (dict_keys d)"
  using dict_update_distinct [of "[]"]
  by (auto simp add: parse_props_def dict_of_pairs_def dict_keys_def split: if_splits sum.splits)

lemma dict_get_update:
  "distinct (dict_keys items)
   \<Longrightarrow> dict_get (dict_update d items) k
         = (case dict_get items k of Some v \<Rightarrow> Some v | None \<Rightarrow> dict_get d k)"
proof (induction items arbitrary: d)
  case Nil
  show ?case by (simp add: dict_update_def)
next
  case (Cons item items)
  obtain k0 v0 where item: "item = (k0, v0)" by (cases item)
  have upd: "dict_update d (item # items) = dict_update (dict_set k0 v0 d) items"
    by (simp add: dict_update_def item)
  have d: "distinct (dict_keys items)" and fresh: "k0 \<notin> set (dict_keys items)"
    using Cons.prems by (simp_all add: dict_keys_def item)
  have none: "dict_get items k0 = None" using fresh by (simp add: dict_get_None_iff)
  show ?case unfolding upd using none
    by (auto simp add: Cons.IH [OF d] item dict_get_set split: option.splits)
qed

text \<open>
  Claim C5. Let both strings parse, let the store hold a tree below the element, and let
  there be fuel for its nodes. Then \<open>props\<close> returns the element, whether or not the keys
  of \<open>remove\<close> are present (an absent key raises nothing). Afterwards a key of \<open>add\<close> has
  the value \<open>add\<close> gives it, any other key of \<open>remove\<close> is absent, and every further key is
  as before. One message is dispatched if the loop is active and a key of \<open>remove\<close> was
  present or an item of \<open>add\<close> differs from what the props hold after the removals;
  otherwise none is.\<close>

theorem props_merge_and_dispatch:
  assumes "dict_get (elements s) self = Some e"
    and "shape (elements s) t" and "root t = self" and "length (postorder t) \<le> fuel"
    and "parse_props lexer remove = Inr removed" and "parse_props lexer add = Inr added"
  shows "\<exists>ms ps. props fuel lexer add remove self s =
            Some (Inr self,
                  s\<lparr>elements := dict_set self (e\<lparr>props_f := ps\<rparr>) (elements s),
                    emitted := emitted s @ ms\<rparr>)
         \<and> (\<forall>k. dict_get ps k =
                 (case dict_get added k of
                    Some v \<Rightarrow> Some v
                  | None \<Rightarrow> if k \<in> set (dict_keys removed) then None else dict_get (props_f e) k))
         \<and> length ms =
             (if loop s \<and>
                 ((\<exists>k \<in> set (dict_keys removed). dict_has (props_f e) k)
                  \<or> (\<exists>(k, v) \<in> set added.
                        (if k \<in> set (dict_keys removed) then None else dict_get (props_f e) k) \<noteq> Some v))
              then 1 else 0)"
proof -
  let ?ps1 = "fold dict_del (dict_keys removed) (props_f e)"
  let ?ps2 = "dict_update ?ps1 added"
  let ?n1 = "\<exists>k \<in> set (dict_keys removed). dict_has (props_f e) k"
  let ?n2 = "?n1 \<or> (\<exists>(k, v) \<in> set added. dict_get ?ps1 k \<noteq> Some v)"
  have r: "remove_props (dict_keys removed) (False, props_f e) = (?n1, ?ps1)"
    by (simp add: remove_props_result)
  have a: "add_props added (?n1, ?ps1) = (?n2, ?ps2)"
    by (simp add: add_props_result)
  have get: "\<forall>k. dict_get ?ps2 k =
                 (case dict_get added k of
                    Some v \<Rightarrow> Some v
                  | None \<Rightarrow> if k \<in> set (dict_keys removed) then None else dict_get (props_f e) k)"
    by (auto simp add: dict_get_update [OF parse_props_distinct [OF assms(6)]] dict_get_fold_del
          split: option.splits)
  have n2: "?n2 \<longleftrightarrow> (?n1 \<or> (\<exists>(k, v) \<in> set added.
                        (if k \<in> set (dict_keys removed) then None else dict_get (props_f e) k) \<noteq> Some v))"
    by (simp add: dict_get_fold_del)
  have P: "props fuel lexer add remove self s =
             (if ?n2 then then_return (update fuel self (put_element self (e\<lparr>props_f := ?ps2\<rparr>) s)) self
              else Some (Inr self, put_element self (e\<lparr>props_f := ?ps2\<rparr>) s))"
    by (simp add: props_def assms(1) assms(5) assms(6) r a)
  have "\<exists>ms. props fuel lexer add remove self s =
            Some (Inr self, s\<lparr>elements := dict_set self (e\<lparr>props_f := ?ps2\<rparr>) (elements s),
                    emitted := emitted s @ ms\<rparr>)
          \<and> length ms = (if loop s \<and> ?n2 then 1 else 0)"
  proof (cases ?n2)
    case True
    from update_after_put [OF assms(2) assms(3) assms(4) assms(1), of "e\<lparr>props_f := ?ps2\<rparr>"]
    obtain ms where u: "update fuel self (put_element self (e\<lparr>props_f := ?ps2\<rparr>) s)
              = Some (None, s\<lparr>elements := dict_set self (e\<lparr>props_f := ?ps2\<rparr>) (elements s), emitted := emitted s @ ms\<rparr>)"
      and l: "length ms = (if loop s then 1 else 0)"
      by auto
    have "props fuel lexer add remove self s
            = then_return (update fuel self (put_element self (e\<lparr>props_f := ?ps2\<rparr>) s)) self"
      unfolding P by (rule if_P [OF True])
    also have "\<dots> = Some (Inr self, s\<lparr>elements := dict_set self (e\<lparr>props_f := ?ps2\<rparr>) (elements s),
                    emitted := emitted s @ ms\<rparr>)"
      by (simp add: u then_return_def)
    finally have 1: "props fuel lexer add remove self s =
            Some (Inr self, s\<lparr>elements := dict_set self (e\<lparr>props_f := ?ps2\<rparr>) (elements s),
                    emitted := emitted s @ ms\<rparr>)" .
    have 2: "length ms = (if loop s \<and> ?n2 then 1 else 0)"
      unfolding l using True by (simp only: simp_thms)
    show ?thesis using 1 2 by (rule exI [of _ ms, OF conjI])
  next
    case False
    have "props fuel lexer add remove self s
            = Some (Inr self, put_element self (e\<lparr>props_f := ?ps2\<rparr>) s)"
      unfolding P by (rule if_not_P [OF False])
    also have "\<dots> = Some (Inr self, s\<lparr>elements := dict_set self (e\<lparr>props_f := ?ps2\<rparr>) (elements s),
                    emitted := emitted s @ []\<rparr>)"
      by (simp add: put_element_def)
    finally have 1: "props fuel lexer add remove self s =
            Some (Inr self, s\<lparr>elements := dict_set self (e\<lparr>props_f := ?ps2\<rparr>) (elements s),
                    emitted := emitted s @ []\<rparr>)" .
    have 2: "length ([] :: message list) = (if loop s \<and> ?n2 then 1 else 0)"
      using False by (simp only: simp_thms if_False list.size)
    show ?thesis using 1 2 by (rule exI [of _ "[]", OF conjI])
  qed
  then obtain ms where 1: "props fuel lexer add remove self s =
            Some (Inr self, s\<lparr>elements := dict_set self (e\<lparr>props_f := ?ps2\<rparr>) (elements s),
                    emitted := emitted s @ ms\<rparr>)"
    and 2: "length ms = (if loop s \<and> ?n2 then 1 else 0)"
    by blast
  have 3: "length ms = (if loop s \<and> (?n1 \<or> (\<exists>(k, v) \<in> set added.
                        (if k \<in> set (dict_keys removed) then None else dict_get (props_f e) k) \<noteq> Some v))
              then 1 else 0)"
    using 2 by (simp only: n2)
  show ?thesis
    by (rule exI [of _ ms], rule exI [of _ ?ps2]) (intro conjI 1 get 3)
qed

theorem props_merge_and_dispatch_witness:
  "dict_get (elements demo) 3 = Some (blank 3 ''q-btn'') \<and> shape (elements demo) (Node 3 [])
   \<and> root (Node 3 []) = 3 \<and> length (postorder (Node 3 [])) \<le> 1
   \<and> parse_props plain_lexer (Some ''flat'') = Inr [(''flat'', PTrue)]
   \<and> parse_props plain_lexer (Some ''dense label=hi'')
        = Inr [(''dense'', PTrue), (''label'', PStr ''hi'')]
   \<and> (\<exists>ms ps. props 1 plain_lexer (Some ''dense label=hi'') (Some ''flat'') 3 demo =
          Some (Inr 3,
                demo\<lparr>elements := dict_set 3 ((blank 3 ''q-btn'')\<lparr>props_f := ps\<rparr>) (elements demo),
                     emitted := emitted demo @ ms\<rparr>)
        \<and> dict_get ps ''dense'' = Some PTrue \<and> dict_get ps ''label'' = Some (PStr ''hi'')
        \<and> dict_get ps ''flat'' = None \<and> length ms = 1)"
proof -
  have h1: "dict_get (elements demo) 3 = Some (blank 3 ''q-btn'')" by (simp add: demo_def)
  have h2: "shape (elements demo) (Node 3 [])"
    by (simp add: demo_def blank_def proper_slots_def children_of_def dict_keys_def)
  have h3: "root (Node 3 []) = 3" by simp
  have h4: "length (postorder (Node 3 [])) \<le> 1" by simp
  have h5: "parse_props plain_lexer (Some ''flat'') = Inr [(''flat'', PTrue)]"
    by (simp add: parse_props_def plain_lexer_def truthy_def or_empty_def split_on_def
          prop_of_word_def dict_of_pairs_def dict_update_def)
  have h6: "parse_props plain_lexer (Some ''dense label=hi'')
              = Inr [(''dense'', PTrue), (''label'', PStr ''hi'')]"
    by (simp add: parse_props_def plain_lexer_def truthy_def or_empty_def split_on_def
          prop_of_word_def dict_of_pairs_def dict_update_def)
  from props_merge_and_dispatch [OF h1 h2 h3 h4 h5 h6]
  obtain ms ps where 1: "props 1 plain_lexer (Some ''dense label=hi'') (Some ''flat'') 3 demo =
          Some (Inr 3,
                demo\<lparr>elements := dict_set 3 ((blank 3 ''q-btn'')\<lparr>props_f := ps\<rparr>) (elements demo),
                     emitted := emitted demo @ ms\<rparr>)"
    and 2: "\<forall>k. dict_get ps k =
                 (case dict_get [(''dense'', PTrue), (''label'', PStr ''hi'')] k of
                    Some v \<Rightarrow> Some v
                  | None \<Rightarrow> if k \<in> set (dict_keys [(''flat'', PTrue)]) then None
                            else dict_get (props_f (blank 3 ''q-btn'')) k)"
    and 3: "length ms =
             (if loop demo \<and>
                 ((\<exists>k \<in> set (dict_keys [(''flat'', PTrue)]). dict_has (props_f (blank 3 ''q-btn'')) k)
                  \<or> (\<exists>(k, v) \<in> set [(''dense'', PTrue), (''label'', PStr ''hi'')].
                        (if k \<in> set (dict_keys [(''flat'', PTrue)]) then None
                         else dict_get (props_f (blank 3 ''q-btn'')) k) \<noteq> Some v))
              then 1 else 0)"
    by blast
  have a: "dict_get ps ''dense'' = Some PTrue" using 2 by simp
  have b: "dict_get ps ''label'' = Some (PStr ''hi'')" using 2 by simp
  have c: "dict_get ps ''flat'' = None" using 2 by (simp add: dict_keys_def)
  have d: "length ms = 1" using 3 by (simp add: demo_def blank_def dict_keys_def)
  show ?thesis using h1 h2 h3 h4 h5 h6 1 a b c d by blast
qed

end
